theory Spec2Isabelle
  imports Complex_Main "HOL-Library.AList" "HOL-Library.Multiset"
begin

section \<open>Knowledge graph of the memory module (memory-graph.ts)\<close>

text \<open>
  The class \<open>MemoryGraph\<close> keeps five JavaScript \<open>Map\<close>s, a configuration and
  a dirty flag. A \<open>Map\<close> iterates in insertion order, \<open>set\<close> on a present key keeps its
  position and \<open>set\<close> on a new key appends: this is an association list with distinct
  keys under \<open>AList.update\<close> and \<open>AList.delete\<close>. A \<open>Set\<close> is a list
  without duplicates that grows at its end. Numbers are the rationals: the arithmetic
  of the source is carried out exactly (no rounding, no NaN, no infinities).
  Identifiers are strings.
\<close>

subsection \<open>Types\<close>

type_synonym ident = string

datatype EdgeType = Reference | Similar | Temporal | CoAccessed | Causal

datatype CommunityAlgorithm = Louvain | LabelPropagation

text \<open>
  Every numeric option is a \<open>number\<close>: the constructor merges the options it is given
  over the defaults and checks none of them, so \<open>maxNodes\<close> and
  \<open>pageRankIterations\<close> need be neither whole nor positive.
\<close>

record MemoryGraphConfig =
  similarityThreshold :: rat
  pageRankDamping :: rat
  pageRankIterations :: rat
  pageRankConvergence :: rat
  maxNodes :: rat
  enableAutoEdges :: bool
  communityAlgorithm :: CommunityAlgorithm

definition DEFAULT_CONFIG :: MemoryGraphConfig where
  "DEFAULT_CONFIG =
     \<lparr>similarityThreshold = 8 / 10, pageRankDamping = 85 / 100, pageRankIterations = 50,
      pageRankConvergence = 1 / 1000000, maxNodes = 5000, enableAutoEdges = True,
      communityAlgorithm = LabelPropagation\<rparr>"

text \<open>
  Of a \<open>MemoryEntry\<close> (declared in types.ts) the graph reads the fields below. In
  \<open>metadata\<close> a field that is absent is \<open>None\<close>.
\<close>

record Metadata =
  m_category :: "string option"
  m_confidence :: "rat option"

record MemoryEntry =
  e_id :: ident
  e_metadata :: "Metadata option"
  e_accessCount :: int
  e_createdAt :: int
  e_references :: "ident list"
  e_embedding :: "rat list option"

record SearchResult =
  s_entry :: MemoryEntry
  s_score :: rat

record GraphNode =
  n_id :: ident
  n_category :: string
  n_confidence :: rat
  n_accessCount :: int
  n_createdAt :: int

record GraphEdge =
  targetId :: ident
  etype :: EdgeType
  weight :: rat

record RankedResult =
  r_entry :: MemoryEntry
  r_score :: rat
  r_pageRank :: rat
  r_combinedScore :: rat
  r_community :: "ident option"

datatype Event = GraphBuilt nat | PageRankComputed nat | CommunitiesDetected nat

text \<open>The state of a \<open>MemoryGraph\<close>; \<open>emitted\<close> is the log of the events emitted so far.\<close>

record graph =
  nodes :: "(ident \<times> GraphNode) list"
  edges :: "(ident \<times> GraphEdge list) list"
  reverseEdges :: "(ident \<times> ident list) list"
  pageRanks :: "(ident \<times> rat) list"
  communities :: "(ident \<times> ident) list"
  config :: MemoryGraphConfig
  dirty :: bool
  emitted :: "Event list"

subsection \<open>Maps, sets and the operator \<open>||\<close>\<close>

definition has :: "('k \<times> 'v) list \<Rightarrow> 'k \<Rightarrow> bool" where
  "has m k = (map_of m k \<noteq> None)"

text \<open>\<open>m.get(k) || d\<close> on a map of arrays: an array is never falsy.\<close>

definition get_or :: "('k \<times> 'v) list \<Rightarrow> 'k \<Rightarrow> 'v \<Rightarrow> 'v" where
  "get_or m k d = (case map_of m k of None \<Rightarrow> d | Some v \<Rightarrow> v)"

text \<open>\<open>x || d\<close> on an optional number: \<open>undefined\<close> and \<open>0\<close> are falsy.\<close>

definition num_or :: "rat option \<Rightarrow> rat \<Rightarrow> rat" where
  "num_or x d = (case x of None \<Rightarrow> d | Some v \<Rightarrow> if v = 0 then d else v)"

text \<open>\<open>x || d\<close> on an optional string: \<open>undefined\<close> and the empty string are falsy.\<close>

definition str_or :: "string option \<Rightarrow> string \<Rightarrow> string" where
  "str_or x d = (case x of None \<Rightarrow> d | Some v \<Rightarrow> if v = [] then d else v)"

definition set_add :: "'a \<Rightarrow> 'a list \<Rightarrow> 'a list" where
  "set_add x xs = (if x \<in> set xs then xs else xs @ [x])"

definition set_delete :: "'a \<Rightarrow> 'a list \<Rightarrow> 'a list" where
  "set_delete x xs = removeAll x xs"

text \<open>Assignment to a field of the first element that \<open>Array.find\<close> returns.\<close>

fun map_first :: "('a \<Rightarrow> bool) \<Rightarrow> ('a \<Rightarrow> 'a) \<Rightarrow> 'a list \<Rightarrow> 'a list" where
  "map_first P f [] = []"
| "map_first P f (x # xs) = (if P x then f x # xs else x # map_first P f xs)"

subsection \<open>Construction\<close>

definition new :: "MemoryGraphConfig \<Rightarrow> graph" where
  "new cfg = \<lparr>nodes = [], edges = [], reverseEdges = [], pageRanks = [], communities = [],
              config = cfg, dirty = True, emitted = []\<rparr>"

text \<open>The object literal that \<open>addNode\<close> stores.\<close>

definition graphNode :: "MemoryEntry \<Rightarrow> GraphNode" where
  "graphNode entry =
     \<lparr>n_id = e_id entry,
      n_category = str_or (case e_metadata entry of None \<Rightarrow> None
                           | Some m \<Rightarrow> m_category m) ''general'',
      n_confidence = num_or (case e_metadata entry of None \<Rightarrow> None
                             | Some m \<Rightarrow> m_confidence m) (1 / 2),
      n_accessCount = e_accessCount entry,
      n_createdAt = e_createdAt entry\<rparr>"

definition addNode :: "MemoryEntry \<Rightarrow> graph \<Rightarrow> graph" where
  "addNode entry g =
     (if of_nat (length (nodes g)) \<ge> maxNodes (config g) \<and> \<not> has (nodes g) (e_id entry) then g
      else
        let g1 = g\<lparr>nodes := AList.update (e_id entry) (graphNode entry) (nodes g)\<rparr>;
            g2 = (if \<not> has (edges g1) (e_id entry)
                  then g1\<lparr>edges := AList.update (e_id entry) [] (edges g1)\<rparr> else g1);
            g3 = (if \<not> has (reverseEdges g2) (e_id entry)
                  then g2\<lparr>reverseEdges := AList.update (e_id entry) [] (reverseEdges g2)\<rparr>
                  else g2)
        in g3\<lparr>dirty := True\<rparr>)"

definition addEdge :: "ident \<Rightarrow> ident \<Rightarrow> EdgeType \<Rightarrow> rat \<Rightarrow> graph \<Rightarrow> graph" where
  "addEdge sourceId tgt ty w g =
     (if \<not> has (nodes g) sourceId \<or> \<not> has (nodes g) tgt then g
      else
        let edgeList = get_or (edges g) sourceId [];
            g1 = (if \<not> has (edges g) sourceId
                  then g\<lparr>edges := AList.update sourceId edgeList (edges g)\<rparr> else g);
            edgeList' =
              (case find (\<lambda>e. targetId e = tgt) edgeList of
                 Some existing \<Rightarrow>
                   map_first (\<lambda>e. targetId e = tgt)
                     (\<lambda>e. e\<lparr>weight := max (weight e) w\<rparr>) edgeList
               | None \<Rightarrow> edgeList @ [\<lparr>targetId = tgt, etype = ty, weight = w\<rparr>]);
            g2 = g1\<lparr>edges := AList.update sourceId edgeList' (edges g1)\<rparr>;
            g3 = (if \<not> has (reverseEdges g2) tgt
                  then g2\<lparr>reverseEdges := AList.update tgt [] (reverseEdges g2)\<rparr> else g2);
            g4 = g3\<lparr>reverseEdges :=
                      AList.update tgt (set_add sourceId (get_or (reverseEdges g3) tgt []))
                        (reverseEdges g3)\<rparr>
        in g4\<lparr>dirty := True\<rparr>)"

definition removeNode :: "ident \<Rightarrow> graph \<Rightarrow> graph" where
  "removeNode i g =
     (if \<not> has (nodes g) i then g
      else
        let outgoing = get_or (edges g) i [];
            rev1 = foldl (\<lambda>rev edge.
                      case map_of rev (targetId edge) of
                        None \<Rightarrow> rev
                      | Some revSet \<Rightarrow> AList.update (targetId edge) (set_delete i revSet) rev)
                    (reverseEdges g) outgoing;
            edges1 = AList.delete i (edges g);
            edges2 = (case map_of rev1 i of
                        None \<Rightarrow> edges1
                      | Some incoming \<Rightarrow>
                          foldl (\<lambda>es sourceId.
                              case map_of es sourceId of
                                None \<Rightarrow> es
                              | Some sourceEdges \<Rightarrow>
                                  AList.update sourceId
                                    (filter (\<lambda>e. targetId e \<noteq> i) sourceEdges) es)
                            edges1 incoming);
            rev2 = AList.delete i rev1
        in g\<lparr>nodes := AList.delete i (nodes g), edges := edges2, reverseEdges := rev2,
              pageRanks := AList.delete i (pageRanks g),
              communities := AList.delete i (communities g), dirty := True\<rparr>)"

definition hasEdge :: "graph \<Rightarrow> ident \<Rightarrow> ident \<Rightarrow> bool" where
  "hasEdge g sourceId tgt =
     (case map_of (edges g) sourceId of
        None \<Rightarrow> False
      | Some edgeList \<Rightarrow> list_ex (\<lambda>e. targetId e = tgt) edgeList)"

subsection \<open>Edges from the backing store\<close>

text \<open>
  The backing store (\<open>IMemoryBackend\<close>, declared in types.ts) is a parameter: three
  functions that either raise (\<open>Inl\<close>) or return. \<open>query\<close> receives the namespace and
  the limit, \<open>search\<close> the embedding, \<open>k\<close> and the threshold. An awaited call that
  raises ends the method with that error.
\<close>

record 'x IMemoryBackend =
  b_get :: "ident \<Rightarrow> 'x + MemoryEntry option"
  b_query :: "string option \<Rightarrow> rat \<Rightarrow> 'x + MemoryEntry list"
  b_search :: "rat list \<Rightarrow> nat \<Rightarrow> rat \<Rightarrow> 'x + SearchResult list"

definition buildFromBackend ::
    "'x IMemoryBackend \<Rightarrow> string option \<Rightarrow> graph \<Rightarrow> 'x + graph" where
  "buildFromBackend backend namespace g =
     (case b_query backend namespace (maxNodes (config g)) of
        Inl x \<Rightarrow> Inl x
      | Inr entries \<Rightarrow>
          let g1 = foldl (\<lambda>g entry. addNode entry g) g entries;
              g2 = foldl (\<lambda>g entry.
                      foldl (\<lambda>g refId. addEdge (e_id entry) refId Reference 1 g) g
                        (e_references entry))
                    g1 entries
          in Inr (g2\<lparr>dirty := True,
                      emitted := emitted g2 @ [GraphBuilt (length (nodes g2))]\<rparr>))"

text \<open>The body of the loop of \<open>addSimilarityEdges\<close>, on the pair of \<open>added\<close> and the graph.\<close>

definition similarityStep :: "ident \<Rightarrow> nat \<times> graph \<Rightarrow> SearchResult \<Rightarrow> nat \<times> graph" where
  "similarityStep entryId st result =
     (let added = fst st; g = snd st in
      if e_id (s_entry result) = entryId then (added, g)
      else if s_score result \<ge> similarityThreshold (config g) then
        let hadEdge = hasEdge g entryId (e_id (s_entry result));
            g' = addEdge entryId (e_id (s_entry result)) Similar (s_score result) g
        in (if \<not> hadEdge then added + 1 else added, g')
      else (added, g))"

definition addSimilarityEdges ::
    "'x IMemoryBackend \<Rightarrow> ident \<Rightarrow> graph \<Rightarrow> 'x + nat \<times> graph" where
  "addSimilarityEdges backend entryId g =
     (case b_get backend entryId of
        Inl x \<Rightarrow> Inl x
      | Inr None \<Rightarrow> Inr (0, g)
      | Inr (Some entry) \<Rightarrow>
          (case e_embedding entry of
             None \<Rightarrow> Inr (0, g)
           | Some embedding \<Rightarrow>
               (case b_search backend embedding 20 (similarityThreshold (config g)) of
                  Inl x \<Rightarrow> Inl x
                | Inr results \<Rightarrow> Inr (foldl (similarityStep entryId) (0, g) results))))"

subsection \<open>PageRank\<close>

text \<open>\<open>this.pageRanks.get(k) || 0\<close> and \<open>this.edges.get(k)?.length || 1\<close>.\<close>

definition rankOf :: "(ident \<times> rat) list \<Rightarrow> ident \<Rightarrow> rat" where
  "rankOf pr k = num_or (map_of pr k) 0"

definition outDegree :: "graph \<Rightarrow> ident \<Rightarrow> nat" where
  "outDegree g k =
     (case map_of (edges g) k of
        None \<Rightarrow> 1
      | Some es \<Rightarrow> if length es = 0 then 1 else length es)"

text \<open>
  One pass of the power iteration. \<open>incomingSum\<close> is the inner loop over the reverse
  set of a node, \<open>newRank\<close> the rank it is given; the pass returns the new ranks and
  \<open>maxDelta\<close>.
\<close>

definition incomingSum :: "graph \<Rightarrow> (ident \<times> rat) list \<Rightarrow> ident \<Rightarrow> rat" where
  "incomingSum g pr nodeId =
     (case map_of (reverseEdges g) nodeId of
        None \<Rightarrow> 0
      | Some incoming \<Rightarrow>
          foldl (\<lambda>s sourceId. s + rankOf pr sourceId / of_nat (outDegree g sourceId))
            0 incoming)"

definition newRank :: "graph \<Rightarrow> rat \<Rightarrow> (ident \<times> rat) list \<Rightarrow> ident \<Rightarrow> rat" where
  "newRank g danglingSum pr nodeId =
     (let N = length (nodes g); d = pageRankDamping (config g)
      in (1 - d) / of_nat N + d * (incomingSum g pr nodeId + danglingSum / of_nat N))"

definition pr_iteration ::
    "graph \<Rightarrow> ident list \<Rightarrow> (ident \<times> rat) list \<Rightarrow> (ident \<times> rat) list \<times> rat" where
  "pr_iteration g danglingNodes pr =
     (let danglingSum = foldl (\<lambda>s nodeId. s + rankOf pr nodeId) 0 danglingNodes
      in foldl (\<lambda>acc nodeId.
            let r = newRank g danglingSum pr nodeId
            in (AList.update nodeId r (fst acc), max (snd acc) \<bar>r - rankOf pr nodeId\<bar>))
          ([], 0) (map fst (nodes g)))"

text \<open>
  The loop \<open>for (iter = 0; iter < pageRankIterations; iter++)\<close> makes a pass for
  every natural number below \<open>pageRankIterations\<close> unless it breaks: that is
  \<open>nat \<lceil>pageRankIterations\<rceil>\<close> passes, none for a bound that is not positive. The
  first argument of \<open>pr_loop\<close> counts the passes that remain, \<open>iterations\<close> those
  done.
\<close>

fun pr_loop ::
    "graph \<Rightarrow> ident list \<Rightarrow> nat \<Rightarrow> nat \<Rightarrow> (ident \<times> rat) list \<Rightarrow> (ident \<times> rat) list \<times> nat" where
  "pr_loop g danglingNodes 0 iterations pr = (pr, iterations)"
| "pr_loop g danglingNodes (Suc n) iterations pr =
     (let step = pr_iteration g danglingNodes pr in
      if snd step < pageRankConvergence (config g) then (fst step, iterations + 1)
      else pr_loop g danglingNodes n (iterations + 1) (fst step))"

definition computePageRank :: "graph \<Rightarrow> graph \<times> (ident \<times> rat) list" where
  "computePageRank g =
     (let N = length (nodes g) in
      if N = 0 then (g\<lparr>dirty := False, emitted := emitted g @ [PageRankComputed 0]\<rparr>, [])
      else
        let initialRank = 1 / of_nat N;
            pr0 = foldl (\<lambda>pr nodeId. AList.update nodeId initialRank pr) (pageRanks g)
                    (map fst (nodes g));
            danglingNodes =
              filter (\<lambda>nodeId. case map_of (edges g) nodeId of
                                  None \<Rightarrow> True
                                | Some outEdges \<Rightarrow> length outEdges = 0)
                (map fst (nodes g));
            res = pr_loop g danglingNodes (nat \<lceil>pageRankIterations (config g)\<rceil>) 0 pr0
        in (g\<lparr>pageRanks := fst res, dirty := False,
               emitted := emitted g @ [PageRankComputed (snd res)]\<rparr>, fst res))"

subsection \<open>Ranking and queries\<close>

text \<open>
  \<open>Array.prototype.sort\<close> with a comparator is a stable sort: an element moves behind
  another one only where the comparator is positive.
\<close>

fun js_insert :: "('a \<Rightarrow> 'a \<Rightarrow> rat) \<Rightarrow> 'a \<Rightarrow> 'a list \<Rightarrow> 'a list" where
  "js_insert cmp x [] = [x]"
| "js_insert cmp x (y # ys) = (if cmp x y > 0 then y # js_insert cmp x ys else x # y # ys)"

definition js_sort :: "('a \<Rightarrow> 'a \<Rightarrow> rat) \<Rightarrow> 'a list \<Rightarrow> 'a list" where
  "js_sort cmp xs = foldr (js_insert cmp) xs []"

definition rankedResult :: "graph \<Rightarrow> rat \<Rightarrow> nat \<Rightarrow> SearchResult \<Rightarrow> RankedResult" where
  "rankedResult g alpha N result =
     (let pageRank = rankOf (pageRanks g) (e_id (s_entry result));
          combinedScore = alpha * s_score result + (1 - alpha) * (pageRank * of_nat N);
          community = map_of (communities g) (e_id (s_entry result))
      in \<lparr>r_entry = s_entry result, r_score = s_score result, r_pageRank = pageRank,
          r_combinedScore = combinedScore, r_community = community\<rparr>)"

definition rankWithGraph :: "SearchResult list \<Rightarrow> rat \<Rightarrow> graph \<Rightarrow> graph \<times> RankedResult list" where
  "rankWithGraph searchResults alpha g =
     (let g1 = (if dirty g then fst (computePageRank g) else g);
          N = (if length (nodes g1) = 0 then 1 else length (nodes g1))
      in (g1, js_sort (\<lambda>a b. r_combinedScore b - r_combinedScore a)
                (map (rankedResult g1 alpha N) searchResults)))"

definition getTopNodes :: "nat \<Rightarrow> graph \<Rightarrow> graph \<times> (ident \<times> rat \<times> ident) list" where
  "getTopNodes n g =
     (let g1 = (if dirty g then fst (computePageRank g) else g)
      in (g1, map (\<lambda>p. (fst p, snd p, str_or (map_of (communities g1) (fst p)) (fst p)))
                (take n (js_sort (\<lambda>a b. snd b - snd a) (pageRanks g1)))))"

text \<open>One level of the traversal of \<open>getNeighbors\<close>: the sets \<open>visited\<close> and \<open>nextFrontier\<close>.\<close>

definition gn_level ::
    "graph \<Rightarrow> ident \<Rightarrow> ident list \<Rightarrow> ident list \<Rightarrow> ident list \<times> ident list" where
  "gn_level g i visited frontier =
     foldl (\<lambda>st nodeId.
          foldl (\<lambda>st edge.
              if targetId edge \<notin> set (fst st) \<and> targetId edge \<noteq> i
              then (set_add (targetId edge) (fst st), set_add (targetId edge) (snd st))
              else st)
            st (get_or (edges g) nodeId []))
       (visited, []) frontier"

fun gn_loop :: "graph \<Rightarrow> ident \<Rightarrow> nat \<Rightarrow> ident list \<Rightarrow> ident list \<Rightarrow> ident list" where
  "gn_loop g i 0 visited frontier = visited"
| "gn_loop g i (Suc n) visited frontier =
     (let st = gn_level g i visited frontier in
      if length (snd st) = 0 then fst st else gn_loop g i n (fst st) (snd st))"

definition getNeighbors :: "graph \<Rightarrow> ident \<Rightarrow> nat \<Rightarrow> ident list" where
  "getNeighbors g i depth = gn_loop g i depth [] [i]"

subsection \<open>The invariant of the three structural maps\<close>

definition outEdges :: "graph \<Rightarrow> ident \<Rightarrow> GraphEdge list" where
  "outEdges g s = get_or (edges g) s []"

definition incoming :: "graph \<Rightarrow> ident \<Rightarrow> ident list" where
  "incoming g t = get_or (reverseEdges g) t []"

text \<open>
  Keys are unique; every node has its slot in \<open>edges\<close> and in \<open>reverseEdges\<close> and
  nothing else has; ranks are kept for nodes only; an edge list holds one edge for a
  target, the target is a node and the source is recorded in the target's reverse set;
  a reverse set names a source once and only where the edge exists.
\<close>

definition invar :: "graph \<Rightarrow> bool" where
  "invar g \<longleftrightarrow>
     distinct (map fst (nodes g)) \<and> distinct (map fst (edges g)) \<and>
     distinct (map fst (reverseEdges g)) \<and> distinct (map fst (pageRanks g)) \<and>
     set (map fst (edges g)) = set (map fst (nodes g)) \<and>
     set (map fst (reverseEdges g)) = set (map fst (nodes g)) \<and>
     set (map fst (pageRanks g)) \<subseteq> set (map fst (nodes g)) \<and>
     (\<forall>p \<in> set (edges g).
        distinct (map targetId (snd p)) \<and>
        (\<forall>e \<in> set (snd p).
           has (nodes g) (targetId e) \<and> fst p \<in> set (incoming g (targetId e)))) \<and>
     (\<forall>p \<in> set (reverseEdges g).
        distinct (snd p) \<and> (\<forall>s \<in> set (snd p). hasEdge g s (fst p)))"

text \<open>What \<open>||\<close> leaves in a stored node: no confidence 0 and no empty category.\<close>

definition nodes_ok :: "graph \<Rightarrow> bool" where
  "nodes_ok g = (\<forall>p \<in> set (nodes g). n_confidence (snd p) \<noteq> 0 \<and> n_category (snd p) \<noteq> [])"

subsection \<open>Reachability over outgoing edges\<close>

text \<open>
  The words of the specification for \<open>getNeighbors\<close>: the ids other than \<open>i\<close> that
  a path of at least one and at most \<open>depth\<close> outgoing edges reaches from \<open>i\<close>.
\<close>

definition edgeRel :: "graph \<Rightarrow> (ident \<times> ident) set" where
  "edgeRel g = {(u, v). v \<in> targetId ` set (outEdges g u)}"

definition reachableWithin :: "graph \<Rightarrow> ident \<Rightarrow> nat \<Rightarrow> ident set" where
  "reachableWithin g i depth =
     {v. v \<noteq> i \<and> (\<exists>k. 1 \<le> k \<and> k \<le> depth \<and> (i, v) \<in> edgeRel g ^^ k)}"

subsection \<open>Sequences of calls\<close>

text \<open>
  The methods that write to the state, as a datatype of calls. A call to the backing
  store that raises leaves the graph as it was: both methods await the store before
  their first write. \<open>detectCommunities\<close> draws its visiting order from
  \<open>Math.random\<close>; it writes the labelling it found and emits one event, and the
  labelling is the parameter of its call here.
\<close>

datatype 'x Call =
    AddNode MemoryEntry
  | AddEdge ident ident EdgeType rat
  | RemoveNode ident
  | BuildFromBackend "'x IMemoryBackend" "string option"
  | AddSimilarityEdges "'x IMemoryBackend" ident
  | ComputePageRank
  | DetectCommunities "(ident \<times> ident) list"
  | RankWithGraph "SearchResult list" rat
  | GetTopNodes nat

fun call :: "'x Call \<Rightarrow> graph \<Rightarrow> graph" where
  "call (AddNode entry) g = addNode entry g"
| "call (AddEdge s t ty w) g = addEdge s t ty w g"
| "call (RemoveNode i) g = removeNode i g"
| "call (BuildFromBackend backend namespace) g =
     (case buildFromBackend backend namespace g of Inl x \<Rightarrow> g | Inr g' \<Rightarrow> g')"
| "call (AddSimilarityEdges backend i) g =
     (case addSimilarityEdges backend i g of Inl x \<Rightarrow> g | Inr r \<Rightarrow> snd r)"
| "call ComputePageRank g = fst (computePageRank g)"
| "call (DetectCommunities labels) g =
     g\<lparr>communities := labels,
       emitted := emitted g @ [CommunitiesDetected (length (remdups (map snd labels)))]\<rparr>"
| "call (RankWithGraph searchResults alpha) g = fst (rankWithGraph searchResults alpha g)"
| "call (GetTopNodes n) g = fst (getTopNodes n g)"

definition run :: "'x Call list \<Rightarrow> graph \<Rightarrow> graph" where
  "run calls g = foldl (\<lambda>g c. call c g) g calls"






subsection \<open>Example inputs\<close>

definition plainEntry :: "ident \<Rightarrow> MemoryEntry" where
  "plainEntry i = \<lparr>e_id = i, e_metadata = None, e_accessCount = 0, e_createdAt = 0,
                   e_references = [], e_embedding = None\<rparr>"

text \<open>
  A store that holds the entries \<open>a\<close> and \<open>b\<close>, both with an embedding, and whose search
  returns both; and the graph that holds the node \<open>a\<close> only.
\<close>

definition storedEntry :: "ident \<Rightarrow> MemoryEntry" where
  "storedEntry i = (plainEntry i)\<lparr>e_embedding := Some [1]\<rparr>"

definition twoEntryStore :: "unit IMemoryBackend" where
  "twoEntryStore =
     \<lparr>b_get = (\<lambda>i. Inr (if i = ''a'' \<or> i = ''b'' then Some (storedEntry i) else None)),
      b_query = (\<lambda>namespace limit. Inr [storedEntry ''a'', storedEntry ''b'']),
      b_search = (\<lambda>embedding k threshold.
         Inr [\<lparr>s_entry = storedEntry ''a'', s_score = 1\<rparr>,
              \<lparr>s_entry = storedEntry ''b'', s_score = 9 / 10\<rparr>])\<rparr>"

definition graphOnlyA :: graph where
  "graphOnlyA = addNode (storedEntry ''a'') (new DEFAULT_CONFIG)"



text \<open>The chain \<open>A \<rightarrow> B \<rightarrow> C \<rightarrow> D\<close>.\<close>

definition chainABCD :: graph where
  "chainABCD =
     run [AddNode (plainEntry ''A''), AddNode (plainEntry ''B''), AddNode (plainEntry ''C''),
          AddNode (plainEntry ''D''), AddEdge ''A'' ''B'' Reference 1,
          AddEdge ''B'' ''C'' Reference 1, AddEdge ''C'' ''D'' Reference 1 :: unit Call]
       (new DEFAULT_CONFIG)"

text \<open>
  The nodes \<open>A\<close>, \<open>B\<close>, \<open>C\<close> with the edges \<open>A \<rightarrow> B\<close> and \<open>A \<rightarrow> C\<close> of weight 1, under
  the default options (damping 0.85) but for the bound on the passes and the tolerance.
\<close>

definition danglingABC :: "rat \<Rightarrow> rat \<Rightarrow> graph" where
  "danglingABC passes tolerance =
     run [AddNode (plainEntry ''A''), AddNode (plainEntry ''B''), AddNode (plainEntry ''C''),
          AddEdge ''A'' ''B'' Reference 1, AddEdge ''A'' ''C'' Reference 1 :: unit Call]
       (new (DEFAULT_CONFIG\<lparr>pageRankIterations := passes, pageRankConvergence := tolerance\<rparr>))"

section \<open>Properties\<close>

lemma has_iff: "has al k \<longleftrightarrow> k \<in> set (map fst al)"
  by (simp add: has_def map_of_eq_None_iff)

lemma has_update [simp]: "has (AList.update k v al) k' = (k' = k \<or> has al k')"
  by (simp add: has_def update_conv')

lemma has_delete [simp]: "has (AList.delete k al) k' = (k' \<noteq> k \<and> has al k')"
  by (simp add: has_def delete_conv')

lemma get_or_update [simp]:
  "get_or (AList.update k v al) k' d = (if k' = k then v else get_or al k' d)"
  by (simp add: get_or_def update_conv')

lemma length_update:
  "length (AList.update k v al) = (if has al k then length al else Suc (length al))"
  by (induction al) (auto simp: has_def)

lemma keys_update_has: "has al k \<Longrightarrow> map fst (AList.update k v al) = map fst al"
  by (simp add: update_keys has_iff)

lemma mem_alist_iff: "distinct (map fst al) \<Longrightarrow> (k, v) \<in> set al \<longleftrightarrow> map_of al k = Some v"
  by simp

lemma hasEdge_iff: "hasEdge g s t \<longleftrightarrow> t \<in> targetId ` set (outEdges g s)"
  by (auto simp: hasEdge_def outEdges_def get_or_def list_ex_iff split: option.splits)

subsection \<open>The invariant, by lookups\<close>

lemma wf_edgesD:
  assumes "invar g" "map_of (edges g) s = Some es"
  shows "distinct (map targetId es)" "has (nodes g) s"
    "\<And>e. e \<in> set es \<Longrightarrow> has (nodes g) (targetId e) \<and> s \<in> set (incoming g (targetId e))"
proof -
  from assms(2) have m: "(s, es) \<in> set (edges g)" by (rule map_of_SomeD)
  from assms(1) have "\<forall>p \<in> set (edges g). distinct (map targetId (snd p)) \<and>
        (\<forall>e \<in> set (snd p). has (nodes g) (targetId e) \<and> fst p \<in> set (incoming g (targetId e)))"
    unfolding invar_def by (elim conjE)
  from bspec[OF this m] show "distinct (map targetId es)"
    and "\<And>e. e \<in> set es \<Longrightarrow> has (nodes g) (targetId e) \<and> s \<in> set (incoming g (targetId e))"
    by simp_all
  from assms(1) have "set (map fst (edges g)) = set (map fst (nodes g))"
    unfolding invar_def by (elim conjE)
  moreover from m have "s \<in> set (map fst (edges g))" by force
  ultimately show "has (nodes g) s" by (simp only: has_iff)
qed

lemma wf_revD:
  assumes "invar g" "map_of (reverseEdges g) t = Some ins"
  shows "distinct ins" "has (nodes g) t" "\<And>s. s \<in> set ins \<Longrightarrow> hasEdge g s t"
proof -
  from assms(2) have m: "(t, ins) \<in> set (reverseEdges g)" by (rule map_of_SomeD)
  from assms(1) have "\<forall>p \<in> set (reverseEdges g).
        distinct (snd p) \<and> (\<forall>s \<in> set (snd p). hasEdge g s (fst p))"
    unfolding invar_def by (elim conjE)
  from bspec[OF this m] show "distinct ins" and "\<And>s. s \<in> set ins \<Longrightarrow> hasEdge g s t"
    by simp_all
  from assms(1) have "set (map fst (reverseEdges g)) = set (map fst (nodes g))"
    unfolding invar_def by (elim conjE)
  moreover from m have "t \<in> set (map fst (reverseEdges g))" by force
  ultimately show "has (nodes g) t" by (simp only: has_iff)
qed

lemma wf_incoming_iff: "invar g \<Longrightarrow> s \<in> set (incoming g t) \<longleftrightarrow> hasEdge g s t"
proof
  assume w: "invar g" and i: "s \<in> set (incoming g t)"
  show "hasEdge g s t"
  proof (cases "map_of (reverseEdges g) t")
    case None
    with i show ?thesis by (simp add: incoming_def get_or_def)
  next
    case (Some ins)
    with i have "s \<in> set ins" by (simp add: incoming_def get_or_def)
    with w Some show ?thesis by (rule wf_revD(3))
  qed
next
  assume w: "invar g" and h: "hasEdge g s t"
  then obtain es e where "map_of (edges g) s = Some es" "e \<in> set es" "targetId e = t"
    by (auto simp: hasEdge_def list_ex_iff split: option.splits)
  with w show "s \<in> set (incoming g t)" using wf_edgesD(3) by blast
qed

lemma wf_slots: "invar g \<Longrightarrow> has (edges g) k = has (nodes g) k" "invar g \<Longrightarrow> has (reverseEdges g) k = has (nodes g) k"
  by (auto simp: invar_def has_iff)

lemma wf_ranks: "invar g \<Longrightarrow> has (pageRanks g) k \<Longrightarrow> has (nodes g) k"
proof -
  assume "invar g" and h: "has (pageRanks g) k"
  then have "set (map fst (pageRanks g)) \<subseteq> set (map fst (nodes g))"
    unfolding invar_def by (elim conjE)
  with h show ?thesis unfolding has_iff by (rule_tac subsetD)
qed

lemma wf_distinct:
  assumes "invar g"
  shows "distinct (map fst (nodes g))" "distinct (map fst (edges g))"
    "distinct (map fst (reverseEdges g))" "distinct (map fst (pageRanks g))"
  using assms by (simp_all only: invar_def)

lemma wfI:
  assumes "distinct (map fst (nodes g))" "distinct (map fst (edges g))"
    "distinct (map fst (reverseEdges g))" "distinct (map fst (pageRanks g))"
    "\<And>k. has (edges g) k = has (nodes g) k" "\<And>k. has (reverseEdges g) k = has (nodes g) k"
    "\<And>k. has (pageRanks g) k \<Longrightarrow> has (nodes g) k"
    "\<And>s es. map_of (edges g) s = Some es \<Longrightarrow> distinct (map targetId es)"
    "\<And>s es e. map_of (edges g) s = Some es \<Longrightarrow> e \<in> set es \<Longrightarrow> has (nodes g) (targetId e)"
    "\<And>s es e. map_of (edges g) s = Some es \<Longrightarrow> e \<in> set es \<Longrightarrow> s \<in> set (incoming g (targetId e))"
    "\<And>t ins. map_of (reverseEdges g) t = Some ins \<Longrightarrow> distinct ins"
    "\<And>t ins s. map_of (reverseEdges g) t = Some ins \<Longrightarrow> s \<in> set ins \<Longrightarrow> hasEdge g s t"
  shows "invar g"
proof -
  have k1: "set (map fst (edges g)) = set (map fst (nodes g))"
    using assms(5) by (auto simp: has_iff)
  have k2: "set (map fst (reverseEdges g)) = set (map fst (nodes g))"
    using assms(6) by (auto simp: has_iff)
  have k3: "set (map fst (pageRanks g)) \<subseteq> set (map fst (nodes g))"
    using assms(7) by (auto simp: has_iff)
  have E: "\<forall>p \<in> set (edges g). distinct (map targetId (snd p)) \<and>
        (\<forall>e \<in> set (snd p). has (nodes g) (targetId e) \<and> fst p \<in> set (incoming g (targetId e)))"
  proof
    fix p assume "p \<in> set (edges g)"
    then have "(fst p, snd p) \<in> set (edges g)" by simp
    then have m: "map_of (edges g) (fst p) = Some (snd p)"
      by (rule map_of_is_SomeI[OF assms(2)])
    show "distinct (map targetId (snd p)) \<and>
        (\<forall>e \<in> set (snd p). has (nodes g) (targetId e) \<and> fst p \<in> set (incoming g (targetId e)))"
      using assms(8)[OF m] assms(9)[OF m] assms(10)[OF m] by blast
  qed
  have R: "\<forall>p \<in> set (reverseEdges g). distinct (snd p) \<and> (\<forall>s \<in> set (snd p). hasEdge g s (fst p))"
  proof
    fix p assume "p \<in> set (reverseEdges g)"
    then have "(fst p, snd p) \<in> set (reverseEdges g)" by simp
    then have m: "map_of (reverseEdges g) (fst p) = Some (snd p)"
      by (rule map_of_is_SomeI[OF assms(3)])
    show "distinct (snd p) \<and> (\<forall>s \<in> set (snd p). hasEdge g s (fst p))"
      using assms(11)[OF m] assms(12)[OF m] by blast
  qed
  show ?thesis
    unfolding invar_def using assms(1-4) k1 k2 k3 E R by (intro conjI)
qed

lemma wf_new: "invar (new cfg)"
  by (simp add: invar_def new_def)

lemma addNode_present:
  assumes "invar g" "has (nodes g) (e_id e)"
  shows "addNode e g = g\<lparr>nodes := AList.update (e_id e) (graphNode e) (nodes g), dirty := True\<rparr>"
  using assms wf_slots[OF assms(1), of "e_id e"] by (simp add: addNode_def Let_def)

lemma addNode_fresh:
  assumes "invar g" "\<not> has (nodes g) (e_id e)" "of_nat (length (nodes g)) < maxNodes (config g)"
  shows "addNode e g = g\<lparr>nodes := AList.update (e_id e) (graphNode e) (nodes g),
            edges := AList.update (e_id e) [] (edges g),
            reverseEdges := AList.update (e_id e) [] (reverseEdges g), dirty := True\<rparr>"
  using assms wf_slots[OF assms(1), of "e_id e"] by (simp add: addNode_def Let_def)

lemma addNode_rejected:
  "of_nat (length (nodes g)) \<ge> maxNodes (config g) \<Longrightarrow> \<not> has (nodes g) (e_id e) \<Longrightarrow> addNode e g = g"
  by (simp add: addNode_def)

lemma invar_addNode: "invar g \<Longrightarrow> invar (addNode e g)"
proof -
  assume w: "invar g"
  let ?i = "e_id e"
  consider (rej) "of_nat (length (nodes g)) \<ge> maxNodes (config g)" "\<not> has (nodes g) ?i"
    | (pres) "has (nodes g) ?i"
    | (fresh) "\<not> has (nodes g) ?i" "of_nat (length (nodes g)) < maxNodes (config g)"
    by linarith
  then show ?thesis
  proof cases
    case rej
    then show ?thesis using w by (simp add: addNode_rejected)
  next
    case pres
    let ?g = "g\<lparr>nodes := AList.update ?i (graphNode e) (nodes g), dirty := True\<rparr>"
    have k: "map fst (nodes ?g) = map fst (nodes g)" using pres by (simp add: keys_update_has)
    have "invar ?g" using w k unfolding invar_def hasEdge_def incoming_def has_iff
      by simp
    then show ?thesis using addNode_present[OF w pres] by simp
  next
    case fresh
    let ?g = "g\<lparr>nodes := AList.update ?i (graphNode e) (nodes g),
            edges := AList.update ?i [] (edges g),
            reverseEdges := AList.update ?i [] (reverseEdges g), dirty := True\<rparr>"
    have ne: "map_of (edges g) ?i = None" "map_of (reverseEdges g) ?i = None"
      using fresh(1) wf_slots[OF w, of ?i] by (simp_all add: has_def)
    have he: "\<And>s t. hasEdge ?g s t = hasEdge g s t"
      using ne by (auto simp: hasEdge_def update_conv')
    have inc: "\<And>t. incoming ?g t = incoming g t"
      using ne by (auto simp: incoming_def get_or_def update_conv')
    have "invar ?g"
    proof (rule wfI)
      show "distinct (map fst (nodes ?g))" "distinct (map fst (edges ?g))"
        "distinct (map fst (reverseEdges ?g))" "distinct (map fst (pageRanks ?g))"
        using wf_distinct[OF w] by (simp_all add: distinct_update)
      show "\<And>k. has (edges ?g) k = has (nodes ?g) k" "\<And>k. has (reverseEdges ?g) k = has (nodes ?g) k"
        using wf_slots[OF w] by simp_all
      show "\<And>k. has (pageRanks ?g) k \<Longrightarrow> has (nodes ?g) k"
        by (simp add: wf_ranks[OF w])
    next
      fix s es assume m: "map_of (edges ?g) s = Some es"
      then have m': "es = [] \<or> map_of (edges g) s = Some es"
        by (auto simp: update_conv' split: if_splits)
      then show "distinct (map targetId es)"
      proof
        assume "es = []" then show ?thesis by simp
      next
        assume "map_of (edges g) s = Some es" then show ?thesis by (rule wf_edgesD(1)[OF w])
      qed
      fix e' assume "e' \<in> set es"
      with m' have m2: "map_of (edges g) s = Some es" by auto
      from wf_edgesD(3)[OF w m2 \<open>e' \<in> set es\<close>]
      show "has (nodes ?g) (targetId e')" "s \<in> set (incoming ?g (targetId e'))"
        unfolding inc by simp_all
    next
      fix t ins assume m: "map_of (reverseEdges ?g) t = Some ins"
      then have m': "ins = [] \<or> map_of (reverseEdges g) t = Some ins"
        by (auto simp: update_conv' split: if_splits)
      then show "distinct ins"
      proof
        assume "ins = []" then show ?thesis by simp
      next
        assume "map_of (reverseEdges g) t = Some ins" then show ?thesis by (rule wf_revD(1)[OF w])
      qed
      fix s assume "s \<in> set ins"
      with m' have m2: "map_of (reverseEdges g) t = Some ins" by auto
      from wf_revD(3)[OF w m2 \<open>s \<in> set ins\<close>]
      show "hasEdge ?g s t" unfolding he .
    qed
    then show ?thesis using addNode_fresh[OF w fresh] by simp
  qed
qed

lemma map_first_targets:
  "(\<And>e. targetId (f e) = targetId e) \<Longrightarrow> map targetId (map_first P f es) = map targetId es"
  by (induction es) auto

lemma map_first_target_set:
  "(\<And>e. targetId (f e) = targetId e) \<Longrightarrow> targetId ` set (map_first P f es) = targetId ` set es"
  using map_first_targets[of f P es] by (metis set_map)

lemma find_ex: "(find P xs = None) = (\<not> list_ex P xs)"
  by (auto simp: find_None_iff list_ex_iff)

lemma outEdges_Some: "map_of (edges g) s = Some es \<Longrightarrow> outEdges g s = es"
  by (simp add: outEdges_def get_or_def)

lemma incoming_Some: "map_of (reverseEdges g) t = Some ins \<Longrightarrow> incoming g t = ins"
  by (simp add: incoming_def get_or_def)

lemma has_SomeE: "has al k \<Longrightarrow> \<exists>v. map_of al k = Some v"
  by (simp add: has_def)

lemma addEdge_eq:
  assumes w: "invar g" and hs: "has (nodes g) s" and ht: "has (nodes g) t"
  shows "addEdge s t ty x g =
     g\<lparr>edges := AList.update s
           (if hasEdge g s t
            then map_first (\<lambda>e. targetId e = t) (\<lambda>e. e\<lparr>weight := max (weight e) x\<rparr>) (outEdges g s)
            else outEdges g s @ [\<lparr>targetId = t, etype = ty, weight = x\<rparr>]) (edges g),
        reverseEdges := AList.update t (set_add s (incoming g t)) (reverseEdges g),
        dirty := True\<rparr>"
proof -
  from hs ht wf_slots[OF w] have he: "has (edges g) s" and hr: "has (reverseEdges g) t" by simp_all
  then obtain es where es: "map_of (edges g) s = Some es" by (auto dest: has_SomeE)
  have f: "(find (\<lambda>e. targetId e = t) es = None) = (\<not> hasEdge g s t)"
    using es by (simp add: find_ex hasEdge_def)
  show ?thesis
  proof (cases "hasEdge g s t")
    case True
    with f obtain ex where "find (\<lambda>e. targetId e = t) es = Some ex" by auto
    with True hs ht he hr es show ?thesis
      by (simp add: addEdge_def Let_def outEdges_def incoming_def get_or_def)
  next
    case False
    with f have "find (\<lambda>e. targetId e = t) es = None" by simp
    with False hs ht he hr es show ?thesis
      by (simp add: addEdge_def Let_def outEdges_def incoming_def get_or_def)
  qed
qed

lemma addEdge_skip: "\<not> has (nodes g) s \<or> \<not> has (nodes g) t \<Longrightarrow> addEdge s t ty x g = g"
  by (auto simp: addEdge_def)

lemma hasEdge_edges_update:
  "hasEdge (g\<lparr>edges := AList.update s es (edges g), reverseEdges := r, dirty := b\<rparr>) s' t' =
     (if s' = s then t' \<in> targetId ` set es else hasEdge g s' t')"
  by (simp add: hasEdge_def update_conv' list_ex_iff image_iff) metis

lemma incoming_rev_update:
  "incoming (g\<lparr>edges := ed, reverseEdges := AList.update t ins (reverseEdges g), dirty := b\<rparr>) t' =
     (if t' = t then ins else incoming g t')"
  by (simp add: incoming_def)

lemma invar_addEdge: "invar g \<Longrightarrow> invar (addEdge s t ty x g)"
proof -
  assume w: "invar g"
  show ?thesis
  proof (cases "has (nodes g) s \<and> has (nodes g) t")
    case False
    then show ?thesis using w by (simp add: addEdge_skip)
  next
    case True
    then have hs: "has (nodes g) s" and ht: "has (nodes g) t" by simp_all
    from hs ht wf_slots[OF w] have "has (edges g) s" and "has (reverseEdges g) t" by simp_all
    then obtain es ins where es: "map_of (edges g) s = Some es"
      and ins: "map_of (reverseEdges g) t = Some ins" by (auto dest!: has_SomeE)
    define es' where "es' = (if hasEdge g s t
            then map_first (\<lambda>e. targetId e = t) (\<lambda>e. e\<lparr>weight := max (weight e) x\<rparr>) es
            else es @ [\<lparr>targetId = t, etype = ty, weight = x\<rparr>])"
    define ins' where "ins' = set_add s ins"
    define g' where "g' = g\<lparr>edges := AList.update s es' (edges g),
        reverseEdges := AList.update t ins' (reverseEdges g), dirty := True\<rparr>"
    have eq: "addEdge s t ty x g = g'"
      unfolding g'_def es'_def ins'_def
      using addEdge_eq[OF w hs ht] outEdges_Some[OF es] incoming_Some[OF ins] by simp
    have tg: "set (map targetId es') = insert t (set (map targetId es))"
      using es by (auto simp: es'_def map_first_target_set hasEdge_def list_ex_iff)
    have dt: "distinct (map targetId es')"
      using wf_edgesD(1)[OF w es] es
      by (auto simp: es'_def map_first_targets hasEdge_def list_ex_iff)
    have si: "set ins' = insert s (set ins)" by (auto simp: ins'_def set_add_def)
    have di: "distinct ins'" using wf_revD(1)[OF w ins] by (auto simp: ins'_def set_add_def)
    have he: "\<And>s' t'. hasEdge g' s' t' = (hasEdge g s' t' \<or> (s' = s \<and> t' = t))"
      unfolding g'_def hasEdge_edges_update using tg es
      by (auto simp: hasEdge_def list_ex_iff)
    have inc: "\<And>t' s'. s' \<in> set (incoming g' t') = (s' \<in> set (incoming g t') \<or> (s' = s \<and> t' = t))"
      unfolding g'_def incoming_rev_update using si incoming_Some[OF ins] by auto
    have "invar g'"
    proof (rule wfI)
      show "distinct (map fst (nodes g'))" "distinct (map fst (edges g'))"
        "distinct (map fst (reverseEdges g'))" "distinct (map fst (pageRanks g'))"
        using wf_distinct[OF w] by (simp_all add: g'_def distinct_update)
      show "\<And>k. has (edges g') k = has (nodes g') k" "\<And>k. has (reverseEdges g') k = has (nodes g') k"
        using wf_slots[OF w] hs ht by (auto simp: g'_def)
      show "\<And>k. has (pageRanks g') k \<Longrightarrow> has (nodes g') k"
        by (simp add: g'_def wf_ranks[OF w])
    next
      fix s' el assume m: "map_of (edges g') s' = Some el"
      then have m': "(s' = s \<and> el = es') \<or> map_of (edges g) s' = Some el"
        by (auto simp: g'_def update_conv' split: if_splits)
      then show "distinct (map targetId el)"
      proof
        assume "s' = s \<and> el = es'" then show ?thesis using dt by simp
      next
        assume "map_of (edges g) s' = Some el" then show ?thesis by (rule wf_edgesD(1)[OF w])
      qed
      fix e assume e: "e \<in> set el"
      have n: "nodes g' = nodes g" by (simp add: g'_def)
      from m have "hasEdge g' s' (targetId e)" using e by (auto simp: hasEdge_def list_ex_iff)
      then have "hasEdge g s' (targetId e) \<or> (s' = s \<and> targetId e = t)" by (simp only: he)
      then show "s' \<in> set (incoming g' (targetId e))"
        unfolding inc using wf_incoming_iff[OF w] by blast
      from \<open>hasEdge g s' (targetId e) \<or> (s' = s \<and> targetId e = t)\<close>
      show "has (nodes g') (targetId e)"
      proof
        assume "hasEdge g s' (targetId e)"
        then obtain el0 e0 where "map_of (edges g) s' = Some el0" "e0 \<in> set el0" "targetId e0 = targetId e"
          by (auto simp: hasEdge_def list_ex_iff split: option.splits)
        then show ?thesis using wf_edgesD(3)[OF w] n by metis
      next
        assume "s' = s \<and> targetId e = t" then show ?thesis using ht n by simp
      qed
    next
      fix t' il assume m: "map_of (reverseEdges g') t' = Some il"
      then have m': "(t' = t \<and> il = ins') \<or> map_of (reverseEdges g) t' = Some il"
        by (auto simp: g'_def update_conv' split: if_splits)
      then show "distinct il"
      proof
        assume "t' = t \<and> il = ins'" then show ?thesis using di by simp
      next
        assume "map_of (reverseEdges g) t' = Some il" then show ?thesis by (rule wf_revD(1)[OF w])
      qed
      fix s' assume "s' \<in> set il"
      with m have "s' \<in> set (incoming g' t')" by (simp add: incoming_Some)
      then show "hasEdge g' s' t'" unfolding inc he using wf_incoming_iff[OF w] by blast
    qed
    then show ?thesis using eq by simp
  qed
qed

lemma rev_fold_keys:
  "map fst (foldl (\<lambda>rev edge. case map_of rev (targetId edge) of None \<Rightarrow> rev
       | Some revSet \<Rightarrow> AList.update (targetId edge) (set_delete i revSet) rev) rv es)
   = map fst rv"
proof (induction es arbitrary: rv)
  case Nil show ?case by simp
next
  case (Cons e es)
  show ?case
  proof (cases "map_of rv (targetId e)")
    case None then show ?thesis using Cons.IH[of rv] by simp
  next
    case (Some r)
    then have "has rv (targetId e)" by (simp add: has_def)
    then show ?thesis using Some Cons.IH[of "AList.update (targetId e) (set_delete i r) rv"]
      by (simp add: keys_update_has)
  qed
qed

lemma rev_fold_map_of:
  "map_of (foldl (\<lambda>rev edge. case map_of rev (targetId edge) of None \<Rightarrow> rev
       | Some revSet \<Rightarrow> AList.update (targetId edge) (set_delete i revSet) rev) rv es) t
   = (if t \<in> targetId ` set es then map_option (removeAll i) (map_of rv t) else map_of rv t)"
proof (induction es arbitrary: rv)
  case Nil show ?case by simp
next
  case (Cons e es)
  show ?case
  proof (cases "map_of rv (targetId e)")
    case None then show ?thesis using Cons.IH[of rv] by auto
  next
    case (Some r)
    then show ?thesis using Cons.IH[of "AList.update (targetId e) (set_delete i r) rv"]
      by (auto simp: update_conv' set_delete_def)
  qed
qed

lemma edges_fold_keys:
  "map fst (foldl (\<lambda>es sourceId. case map_of es sourceId of None \<Rightarrow> es
       | Some sourceEdges \<Rightarrow> AList.update sourceId (filter P sourceEdges) es) ed srcs)
   = map fst ed"
proof (induction srcs arbitrary: ed)
  case Nil show ?case by simp
next
  case (Cons a srcs)
  show ?case
  proof (cases "map_of ed a")
    case None then show ?thesis using Cons.IH[of ed] by simp
  next
    case (Some r)
    then have "has ed a" by (simp add: has_def)
    then show ?thesis using Some Cons.IH[of "AList.update a (filter P r) ed"]
      by (simp add: keys_update_has)
  qed
qed

lemma edges_fold_map_of:
  "map_of (foldl (\<lambda>es sourceId. case map_of es sourceId of None \<Rightarrow> es
       | Some sourceEdges \<Rightarrow> AList.update sourceId (filter P sourceEdges) es) ed srcs) s
   = (if s \<in> set srcs then map_option (filter P) (map_of ed s) else map_of ed s)"
proof (induction srcs arbitrary: ed)
  case Nil show ?case by simp
next
  case (Cons a srcs)
  show ?case
  proof (cases "map_of ed a")
    case None then show ?thesis using Cons.IH[of ed] by auto
  next
    case (Some r)
    then show ?thesis using Cons.IH[of "AList.update a (filter P r) ed"]
      by (auto simp: update_conv')
  qed
qed

lemma removeNode_skip: "\<not> has (nodes g) i \<Longrightarrow> removeNode i g = g"
  by (simp add: removeNode_def)

lemma removeNode_simple:
  "has (nodes g) i \<Longrightarrow>
   nodes (removeNode i g) = AList.delete i (nodes g) \<and>
   pageRanks (removeNode i g) = AList.delete i (pageRanks g) \<and>
   communities (removeNode i g) = AList.delete i (communities g) \<and>
   dirty (removeNode i g) \<and> config (removeNode i g) = config g \<and>
   emitted (removeNode i g) = emitted g"
  by (simp add: removeNode_def Let_def)

lemma removeNode_keys:
  assumes "has (nodes g) i"
  shows "map fst (edges (removeNode i g)) = removeAll i (map fst (edges g))"
    "map fst (reverseEdges (removeNode i g)) = removeAll i (map fst (reverseEdges g))"
  using assms
  by (simp_all add: removeNode_def Let_def edges_fold_keys rev_fold_keys delete_keys
      split: option.splits)

lemma removeNode_rev:
  assumes w: "invar g" and h: "has (nodes g) i"
  shows "map_of (reverseEdges (removeNode i g)) t =
     (if t = i then None else map_option (removeAll i) (map_of (reverseEdges g) t))"
proof (cases "t = i")
  case True
  then show ?thesis using h by (simp add: removeNode_def Let_def delete_conv')
next
  case False
  have "map_option (removeAll i) (map_of (reverseEdges g) t) = map_of (reverseEdges g) t"
    if "t \<notin> targetId ` set (get_or (edges g) i [])"
  proof (cases "map_of (reverseEdges g) t")
    case None then show ?thesis by simp
  next
    case (Some ins)
    from that have "\<not> hasEdge g i t" by (simp add: hasEdge_iff outEdges_def)
    then have "i \<notin> set (incoming g t)" using wf_incoming_iff[OF w] by simp
    then have "i \<notin> set ins" using Some by (simp add: incoming_Some)
    then show ?thesis using Some by simp
  qed
  then show ?thesis using False h
    by (simp add: removeNode_def Let_def delete_conv' rev_fold_map_of)
qed

lemma removeNode_edges:
  assumes w: "invar g" and h: "has (nodes g) i"
  shows "map_of (edges (removeNode i g)) s =
     (if s = i then None else map_option (filter (\<lambda>e. targetId e \<noteq> i)) (map_of (edges g) s))"
proof -
  let ?F = "\<lambda>rev edge. case map_of rev (targetId edge) of None \<Rightarrow> rev
       | Some revSet \<Rightarrow> AList.update (targetId edge) (set_delete i revSet) rev"
  let ?rev1 = "foldl ?F (reverseEdges g) (get_or (edges g) i [])"
  let ?P = "\<lambda>e. targetId e \<noteq> i"
  from h wf_slots[OF w] have "has (reverseEdges g) i" by simp
  then obtain ins where ins: "map_of (reverseEdges g) i = Some ins" by (auto dest: has_SomeE)
  have r1: "\<exists>ins'. map_of ?rev1 i = Some ins' \<and> set ins' \<subseteq> set ins \<and> set ins - {i} \<subseteq> set ins'"
    using ins by (auto simp: rev_fold_map_of)
  then obtain ins' where i1: "map_of ?rev1 i = Some ins'" and sub: "set ins' \<subseteq> set ins"
    and sup: "set ins - {i} \<subseteq> set ins'" by blast
  have ed: "edges (removeNode i g) =
      foldl (\<lambda>es sourceId. case map_of es sourceId of None \<Rightarrow> es
       | Some sourceEdges \<Rightarrow> AList.update sourceId (filter ?P sourceEdges) es)
        (AList.delete i (edges g)) ins'"
    using h i1 by (simp add: removeNode_def Let_def)
  show ?thesis
  proof (cases "s = i")
    case True
    then show ?thesis unfolding ed by (simp add: edges_fold_map_of delete_conv')
  next
    case False
    have "map_option (filter ?P) (map_of (edges g) s) = map_of (edges g) s" if "s \<notin> set ins'"
    proof (cases "map_of (edges g) s")
      case None then show ?thesis by simp
    next
      case (Some es)
      from that sup False have "s \<notin> set ins" by auto
      then have "s \<notin> set (incoming g i)" using ins by (simp add: incoming_Some)
      then have "\<not> hasEdge g s i" using wf_incoming_iff[OF w] by simp
      then have "\<forall>e \<in> set es. targetId e \<noteq> i" using Some by (auto simp: hasEdge_def list_ex_iff)
      then have "filter ?P es = es" by (simp add: filter_id_conv)
      then show ?thesis using Some by simp
    qed
    then show ?thesis unfolding ed using False
      by (simp add: edges_fold_map_of delete_conv')
  qed
qed

lemma hasEdge_removeNode:
  assumes w: "invar g" and h: "has (nodes g) i"
  shows "hasEdge (removeNode i g) s t = (s \<noteq> i \<and> t \<noteq> i \<and> hasEdge g s t)"
  by (auto simp: hasEdge_def removeNode_edges[OF w h] list_ex_iff split: option.splits)

lemma incoming_removeNode:
  assumes w: "invar g" and h: "has (nodes g) i"
  shows "incoming (removeNode i g) t = (if t = i then [] else removeAll i (incoming g t))"
  by (auto simp: incoming_def get_or_def removeNode_rev[OF w h] split: option.splits)

lemma invar_removeNode: "invar g \<Longrightarrow> invar (removeNode i g)"
proof -
  assume w: "invar g"
  show ?thesis
  proof (cases "has (nodes g) i")
    case False
    then show ?thesis using w by (simp add: removeNode_skip)
  next
    case h: True
    let ?g = "removeNode i g"
    note s = removeNode_simple[OF h]
    have hn: "\<And>k. has (nodes ?g) k = (k \<noteq> i \<and> has (nodes g) k)" using s by simp
    show ?thesis
    proof (rule wfI)
      show "distinct (map fst (nodes ?g))" "distinct (map fst (pageRanks ?g))"
        using wf_distinct[OF w] s by (simp_all add: distinct_delete)
      show "distinct (map fst (edges ?g))" "distinct (map fst (reverseEdges ?g))"
        using wf_distinct[OF w] by (simp_all add: removeNode_keys[OF h] distinct_removeAll)
      show "\<And>k. has (edges ?g) k = has (nodes ?g) k"
        using wf_slots(1)[OF w] by (auto simp: has_iff removeNode_keys[OF h] s delete_keys)
      show "\<And>k. has (reverseEdges ?g) k = has (nodes ?g) k"
        using wf_slots(2)[OF w] by (auto simp: has_iff removeNode_keys[OF h] s delete_keys)
      show "\<And>k. has (pageRanks ?g) k \<Longrightarrow> has (nodes ?g) k"
        using s by (simp add: wf_ranks[OF w])
    next
      fix s' el assume m: "map_of (edges ?g) s' = Some el"
      then obtain el0 where ne: "s' \<noteq> i" and m0: "map_of (edges g) s' = Some el0"
        and el: "el = filter (\<lambda>e. targetId e \<noteq> i) el0"
        by (auto simp: removeNode_edges[OF w h] split: if_splits)
      show "distinct (map targetId el)"
        using wf_edgesD(1)[OF w m0] by (simp add: el distinct_map_filter)
      fix e assume e: "e \<in> set el"
      then have e0: "e \<in> set el0" and te: "targetId e \<noteq> i" by (simp_all add: el)
      from wf_edgesD(3)[OF w m0 e0] te ne
      show "has (nodes ?g) (targetId e)" "s' \<in> set (incoming ?g (targetId e))"
        by (simp_all add: hn incoming_removeNode[OF w h])
    next
      fix t il assume m: "map_of (reverseEdges ?g) t = Some il"
      then obtain il0 where ne: "t \<noteq> i" and m0: "map_of (reverseEdges g) t = Some il0"
        and il: "il = removeAll i il0"
        by (auto simp: removeNode_rev[OF w h] split: if_splits)
      show "distinct il" using wf_revD(1)[OF w m0] by (simp add: il distinct_removeAll)
      fix s' assume "s' \<in> set il"
      then have "s' \<in> set il0" "s' \<noteq> i" by (simp_all add: il)
      with wf_revD(3)[OF w m0] ne show "hasEdge ?g s' t"
        by (simp add: hasEdge_removeNode[OF w h])
    qed
  qed
qed

subsection \<open>Every call keeps the invariant\<close>

lemma invar_ranks_update:
  assumes "invar g" "distinct (map fst pr)" "set (map fst pr) \<subseteq> set (map fst (nodes g))"
  shows "invar (g\<lparr>pageRanks := pr, dirty := b, emitted := ev\<rparr>)"
  using assms unfolding invar_def hasEdge_def incoming_def by simp

lemma invar_aux_update:
  assumes "invar g"
  shows "invar (g\<lparr>dirty := b, emitted := ev\<rparr>)" "invar (g\<lparr>communities := c, emitted := ev\<rparr>)"
  using assms unfolding invar_def hasEdge_def incoming_def by simp_all

lemma update_fresh: "k \<notin> fst ` set al \<Longrightarrow> AList.update k v al = al @ [(k, v)]"
  by (induction al) auto

lemma fold_update_fst:
  "fst (foldl (\<lambda>acc k. (AList.update k (f k) (fst acc), h acc k)) acc ks)
   = foldl (\<lambda>al k. AList.update k (f k) al) (fst acc) ks"
  by (induction ks arbitrary: acc) simp_all

lemma fold_update_map:
  "distinct (ks0 @ ks) \<Longrightarrow>
   foldl (\<lambda>al k. AList.update k (f k) al) (map (\<lambda>k. (k, f k)) ks0) ks
   = map (\<lambda>k. (k, f k)) (ks0 @ ks)"
proof (induction ks arbitrary: ks0)
  case Nil show ?case by simp
next
  case (Cons k ks)
  have "k \<notin> fst ` set (map (\<lambda>k. (k, f k)) ks0)" using Cons.prems by (auto simp: image_iff)
  then have "AList.update k (f k) (map (\<lambda>k. (k, f k)) ks0) = map (\<lambda>k. (k, f k)) (ks0 @ [k])"
    by (simp add: update_fresh)
  then show ?case using Cons.IH[of "ks0 @ [k]"] Cons.prems by simp
qed

lemma pr_iteration_fst:
  assumes "distinct (map fst (nodes g))"
  shows "fst (pr_iteration g dn pr) =
     map (\<lambda>k. (k, newRank g (foldl (\<lambda>s nodeId. s + rankOf pr nodeId) 0 dn) pr k))
       (map fst (nodes g))"
proof -
  let ?f = "newRank g (foldl (\<lambda>s nodeId. s + rankOf pr nodeId) 0 dn) pr"
  have "fst (pr_iteration g dn pr) = foldl (\<lambda>al k. AList.update k (?f k) al) [] (map fst (nodes g))"
    unfolding pr_iteration_def Let_def
    using fold_update_fst[of ?f "\<lambda>acc k. max (snd acc) \<bar>?f k - rankOf pr k\<bar>" "([], 0)"]
    by simp
  also have "\<dots> = map (\<lambda>k. (k, ?f k)) (map fst (nodes g))"
    using fold_update_map[of "[]" "map fst (nodes g)" ?f] assms by simp
  finally show ?thesis .
qed

lemma pr_iteration_keys:
  "distinct (map fst (nodes g)) \<Longrightarrow> map fst (fst (pr_iteration g dn pr)) = map fst (nodes g)"
  by (simp add: pr_iteration_fst comp_def)

lemma fold_init_keys:
  "set (map fst (foldl (\<lambda>pr k. AList.update k v pr) pr ks)) = set (map fst pr) \<union> set ks"
  by (induction ks arbitrary: pr) (auto simp: dom_update)

lemma fold_init_distinct:
  "distinct (map fst pr) \<Longrightarrow> distinct (map fst (foldl (\<lambda>pr k. AList.update k v pr) pr ks))"
  by (induction ks arbitrary: pr) (auto simp: distinct_update)

lemma pr_loop_keys:
  assumes "distinct (map fst (nodes g))" "distinct (map fst pr)"
    "set (map fst pr) = set (map fst (nodes g))"
  shows "distinct (map fst (fst (pr_loop g dn n it pr))) \<and>
         set (map fst (fst (pr_loop g dn n it pr))) = set (map fst (nodes g))"
  using assms(2,3)
proof (induction n arbitrary: it pr)
  case 0 then show ?case by simp
next
  case (Suc n)
  have k: "map fst (fst (pr_iteration g dn pr)) = map fst (nodes g)"
    using assms(1) by (rule pr_iteration_keys)
  have "distinct (map fst (fst (pr_iteration g dn pr)))"
    "set (map fst (fst (pr_iteration g dn pr))) = set (map fst (nodes g))"
    using assms(1) by (simp_all only: k)
  from Suc.IH[OF this] this show ?case by (simp add: Let_def del: set_map)
qed

lemma computePageRank_fields:
  "nodes (fst (computePageRank g)) = nodes g \<and> edges (fst (computePageRank g)) = edges g \<and>
   reverseEdges (fst (computePageRank g)) = reverseEdges g \<and>
   communities (fst (computePageRank g)) = communities g \<and>
   config (fst (computePageRank g)) = config g \<and> \<not> dirty (fst (computePageRank g))"
  by (simp add: computePageRank_def Let_def)

lemma computePageRank_ranks_keys:
  assumes w: "invar g" and n: "nodes g \<noteq> []"
  shows "distinct (map fst (snd (computePageRank g))) \<and>
         set (map fst (snd (computePageRank g))) = set (map fst (nodes g))"
proof -
  let ?pr0 = "foldl (\<lambda>pr nodeId. AList.update nodeId (1 / of_nat (length (nodes g))) pr)
                (pageRanks g) (map fst (nodes g))"
  have d0: "distinct (map fst ?pr0)" using wf_distinct(4)[OF w] by (rule fold_init_distinct)
  have "set (map fst (pageRanks g)) \<subseteq> set (map fst (nodes g))"
    using wf_ranks[OF w] by (auto simp: has_iff)
  then have k0: "set (map fst ?pr0) = set (map fst (nodes g))"
    unfolding fold_init_keys by auto
  from pr_loop_keys[OF wf_distinct(1)[OF w] d0 k0] n show ?thesis
    by (simp add: computePageRank_def Let_def del: set_map)
qed

lemma invar_computePageRank: "invar g \<Longrightarrow> invar (fst (computePageRank g))"
proof -
  assume w: "invar g"
  show ?thesis
  proof (cases "nodes g = []")
    case True
    then show ?thesis using invar_aux_update(1)[OF w] by (simp add: computePageRank_def)
  next
    case False
    from computePageRank_ranks_keys[OF w False]
    have "distinct (map fst (snd (computePageRank g)))"
      "set (map fst (snd (computePageRank g))) \<subseteq> set (map fst (nodes g))" by simp_all
    from invar_ranks_update[OF w this] False show ?thesis
      by (simp add: computePageRank_def Let_def)
  qed
qed

lemma invar_fold:
  assumes "\<And>g x. invar g \<Longrightarrow> invar (f g x)" "invar g"
  shows "invar (foldl f g xs)"
  using assms(2) by (induction xs arbitrary: g) (simp_all add: assms(1))

lemma invar_buildFromBackend:
  assumes "invar g" "buildFromBackend backend ns g = Inr g'"
  shows "invar g'"
proof -
  from assms(2) obtain entries where q: "b_query backend ns (maxNodes (config g)) = Inr entries"
    by (auto simp: buildFromBackend_def split: sum.splits)
  let ?g1 = "foldl (\<lambda>g entry. addNode entry g) g entries"
  let ?g2 = "foldl (\<lambda>g entry. foldl (\<lambda>g refId. addEdge (e_id entry) refId Reference 1 g) g
                        (e_references entry)) ?g1 entries"
  have inner: "\<And>g entry. invar g \<Longrightarrow>
      invar (foldl (\<lambda>g refId. addEdge (e_id entry) refId Reference 1 g) g (e_references entry))"
    by (rule invar_fold) (simp_all add: invar_addEdge)
  have "invar ?g1" by (rule invar_fold) (simp_all add: invar_addNode assms(1))
  then have "invar ?g2" by (rule invar_fold[rotated]) (simp add: inner)
  then have "invar (?g2\<lparr>dirty := True, emitted := emitted ?g2 @ [GraphBuilt (length (nodes ?g2))]\<rparr>)"
    by (rule invar_aux_update(1))
  then show ?thesis using assms(2) q by (simp add: buildFromBackend_def Let_def)
qed

lemma invar_similarityStep: "invar (snd st) \<Longrightarrow> invar (snd (similarityStep i st r))"
  by (simp add: similarityStep_def Let_def invar_addEdge)

lemma invar_similarityFold: "invar (snd st) \<Longrightarrow> invar (snd (foldl (similarityStep i) st rs))"
  by (induction rs arbitrary: st) (simp_all add: invar_similarityStep)

lemma invar_addSimilarityEdges:
  assumes "invar g" "addSimilarityEdges backend i g = Inr r"
  shows "invar (snd r)"
  using assms invar_similarityFold[of "(0, g)" i]
  by (auto simp: addSimilarityEdges_def split: sum.splits option.splits)

lemma invar_call: "invar g \<Longrightarrow> invar (call c g)"
proof (cases c)
  case (BuildFromBackend b ns)
  assume "invar g"
  then show ?thesis using BuildFromBackend invar_buildFromBackend[of g b ns]
    by (simp split: sum.splits)
next
  case (AddSimilarityEdges b i)
  assume "invar g"
  then show ?thesis using AddSimilarityEdges invar_addSimilarityEdges[of g b i]
    by (simp split: sum.splits)
next
  case (DetectCommunities labels)
  assume "invar g"
  then show ?thesis using DetectCommunities by (simp add: invar_aux_update(2))
qed (simp_all add: invar_addNode invar_addEdge invar_removeNode invar_computePageRank
       rankWithGraph_def getTopNodes_def Let_def)

lemma invar_run: "invar g \<Longrightarrow> invar (run cs g)"
  unfolding run_def by (induction cs arbitrary: g) (simp_all add: invar_call)

lemma invar_reachable: "invar (run cs (new cfg))"
  by (rule invar_run[OF wf_new])

subsection \<open>Capacity\<close>

lemma addNode_config: "config (addNode e g) = config g"
  by (simp add: addNode_def Let_def)

lemma addNode_length:
  assumes "maxNodes (config g) = of_nat n" "length (nodes g) \<le> n"
  shows "length (nodes (addNode e g)) \<le> n"
proof (cases "of_nat (length (nodes g)) \<ge> maxNodes (config g) \<and> \<not> has (nodes g) (e_id e)")
  case True
  then show ?thesis using assms(2) by (simp add: addNode_def)
next
  case False
  then have "has (nodes g) (e_id e) \<or> length (nodes g) < n"
    using assms(1) by auto
  then show ?thesis using assms(2) False
    by (auto simp: addNode_def Let_def length_update)
qed

lemma addNodes_length:
  "maxNodes (config g) = of_nat n \<Longrightarrow> length (nodes g) \<le> n \<Longrightarrow>
   length (nodes (foldl (\<lambda>g e. addNode e g) g es)) \<le> n"
proof (induction es arbitrary: g)
  case Nil then show ?case by simp
next
  case (Cons e es)
  have "maxNodes (config (addNode e g)) = of_nat n" "length (nodes (addNode e g)) \<le> n"
    using Cons.prems by (simp_all add: addNode_length addNode_config)
  from Cons.IH[OF this] show ?case by simp
qed

lemma addNode_stores:
  "\<not> (of_nat (length (nodes g)) \<ge> maxNodes (config g) \<and> \<not> has (nodes g) (e_id e)) \<Longrightarrow>
   map_of (nodes (addNode e g)) (e_id e) = Some (graphNode e)"
  by (auto simp: addNode_def Let_def update_conv')

text \<open>
  C3, as stated, fails: \<open>maxNodes\<close> is any number. With \<open>maxNodes = 2.5\<close> the third
  \<open>addNode\<close> meets the guard \<open>2 >= 2.5\<close>, is accepted, and the graph holds three nodes;
  with \<open>maxNodes = -1\<close> the empty graph holds more nodes than \<open>maxNodes\<close> already.
\<close>

theorem addNode_capacity_counterexample:
  "\<not> of_nat (length (nodes (run [AddNode (plainEntry ''e1''), AddNode (plainEntry ''e2''),
                                     AddNode (plainEntry ''e3'') :: unit Call]
                                (new (DEFAULT_CONFIG\<lparr>maxNodes := 5 / 2\<rparr>)))))
       \<le> maxNodes (DEFAULT_CONFIG\<lparr>maxNodes := 5 / 2\<rparr>)
   \<and> \<not> of_nat (length (nodes (new (DEFAULT_CONFIG\<lparr>maxNodes := - 1\<rparr>))))
         \<le> maxNodes (DEFAULT_CONFIG\<lparr>maxNodes := - 1\<rparr>)"
  by (simp add: run_def Let_def new_def DEFAULT_CONFIG_def plainEntry_def addNode_def has_def
      graphNode_def)

text \<open>
  C3, amended: where \<open>maxNodes\<close> is a natural number, calls of \<open>addNode\<close> from the
  empty graph never take the node count above it. For every configuration, a call at
  capacity for an id that is not a node returns the state it was given, and a call for
  an id that is a node is accepted whatever the count, stores the new node under that
  id and keeps the ids and their order.
\<close>

theorem addNode_capacity:
  "(maxNodes cfg = of_nat n \<longrightarrow>
      length (nodes (foldl (\<lambda>g e. addNode e g) (new cfg) es)) \<le> n)
   \<and> (of_nat (length (nodes g)) \<ge> maxNodes (config g) \<and> \<not> has (nodes g) (e_id e) \<longrightarrow>
        addNode e g = g)
   \<and> (has (nodes g') (e_id e') \<longrightarrow>
        map_of (nodes (addNode e' g')) (e_id e') = Some (graphNode e')
        \<and> map fst (nodes (addNode e' g')) = map fst (nodes g'))"
proof (intro conjI impI)
  assume "maxNodes cfg = of_nat n"
  then show "length (nodes (foldl (\<lambda>g e. addNode e g) (new cfg) es)) \<le> n"
    using addNodes_length[of "new cfg" n es] by (simp add: new_def)
next
  assume "of_nat (length (nodes g)) \<ge> maxNodes (config g) \<and> \<not> has (nodes g) (e_id e)"
  then show "addNode e g = g" by (simp add: addNode_def)
next
  assume "has (nodes g') (e_id e')"
  then show "map_of (nodes (addNode e' g')) (e_id e') = Some (graphNode e')"
    by (simp add: addNode_stores)
next
  assume "has (nodes g') (e_id e')"
  then show "map fst (nodes (addNode e' g')) = map fst (nodes g')"
    by (simp add: addNode_def Let_def keys_update_has)
qed

theorem addNode_capacity_witness:
  "maxNodes (DEFAULT_CONFIG\<lparr>maxNodes := 3\<rparr>) = of_nat 3
   \<and> length (nodes (foldl (\<lambda>g e. addNode e g) (new (DEFAULT_CONFIG\<lparr>maxNodes := 3\<rparr>))
       (map plainEntry [''e1'', ''e2'', ''e3'', ''e4'', ''e5'']))) \<le> 3
   \<and> (let g3 = foldl (\<lambda>g e. addNode e g) (new (DEFAULT_CONFIG\<lparr>maxNodes := 3\<rparr>))
                 (map plainEntry [''e1'', ''e2'', ''e3''])
      in maxNodes (config g3) \<le> of_nat (length (nodes g3)) \<and> \<not> has (nodes g3) ''e4''
         \<and> addNode (plainEntry ''e4'') g3 = g3
         \<and> has (nodes g3) ''e1''
         \<and> map_of (nodes (addNode (plainEntry ''e1'') g3)) ''e1'' = Some (graphNode (plainEntry ''e1''))
         \<and> map fst (nodes (addNode (plainEntry ''e1'') g3)) = [''e1'', ''e2'', ''e3''])"
  using addNode_capacity[of "DEFAULT_CONFIG\<lparr>maxNodes := 3\<rparr>" 3
      "map plainEntry [''e1'', ''e2'', ''e3'', ''e4'', ''e5'']"
      "foldl (\<lambda>g e. addNode e g) (new (DEFAULT_CONFIG\<lparr>maxNodes := 3\<rparr>))
                 (map plainEntry [''e1'', ''e2'', ''e3''])" "plainEntry ''e4''"
      "foldl (\<lambda>g e. addNode e g) (new (DEFAULT_CONFIG\<lparr>maxNodes := 3\<rparr>))
                 (map plainEntry [''e1'', ''e2'', ''e3''])" "plainEntry ''e1''"]
  by (simp add: Let_def new_def DEFAULT_CONFIG_def plainEntry_def addNode_def has_def graphNode_def)

lemma capacity_scenario:
  "map fst (nodes (foldl (\<lambda>g e. addNode e g) (new (DEFAULT_CONFIG\<lparr>maxNodes := 3\<rparr>))
       (map plainEntry [''e1'', ''e2'', ''e3'', ''e4'', ''e5'']))) = [''e1'', ''e2'', ''e3'']"
  by (simp add: Let_def new_def DEFAULT_CONFIG_def plainEntry_def addNode_def has_def graphNode_def)

subsection \<open>Stored nodes\<close>

lemma set_update_subset: "set (AList.update k v al) \<subseteq> insert (k, v) (set al)"
  by (induction al) auto

lemma set_delete_subset: "set (AList.delete k al) \<subseteq> set al"
  by (induction al) auto

lemma graphNode_confidence: "n_confidence (graphNode e) \<noteq> 0"
  by (simp add: graphNode_def num_or_def split: option.splits)

lemma graphNode_category: "n_category (graphNode e) \<noteq> []"
  by (simp add: graphNode_def str_or_def split: option.splits)

lemma nodes_ok_subset: "nodes_ok g \<Longrightarrow> set (nodes g') \<subseteq> set (nodes g) \<Longrightarrow> nodes_ok g'"
  by (auto simp: nodes_ok_def)

lemma nodes_ok_addNode: "nodes_ok g \<Longrightarrow> nodes_ok (addNode e g)"
proof -
  assume ok: "nodes_ok g"
  have "set (nodes (addNode e g)) \<subseteq> insert (e_id e, graphNode e) (set (nodes g))"
    using set_update_subset[of "e_id e" "graphNode e" "nodes g"]
    by (auto simp: addNode_def Let_def)
  then show ?thesis using ok graphNode_confidence[of e] graphNode_category[of e]
    unfolding nodes_ok_def by fastforce
qed

lemma nodes_addEdge: "nodes (addEdge s t ty w g) = nodes g"
  by (simp add: addEdge_def Let_def)

lemma nodes_removeNode: "set (nodes (removeNode i g)) \<subseteq> set (nodes g)"
  using set_delete_subset[of i "nodes g"] by (simp add: removeNode_def Let_def)

lemma nodes_ok_fold:
  assumes "\<And>g x. nodes_ok g \<Longrightarrow> nodes_ok (f g x)" "nodes_ok g"
  shows "nodes_ok (foldl f g xs)"
  using assms(2) by (induction xs arbitrary: g) (simp_all add: assms(1))

lemma nodes_ok_addEdge: "nodes_ok g \<Longrightarrow> nodes_ok (addEdge s t ty w g)"
  by (simp add: nodes_ok_def nodes_addEdge)

lemma nodes_ok_buildFromBackend:
  assumes "nodes_ok g" "buildFromBackend backend ns g = Inr g'"
  shows "nodes_ok g'"
proof -
  from assms(2) obtain entries where q: "b_query backend ns (maxNodes (config g)) = Inr entries"
    by (auto simp: buildFromBackend_def split: sum.splits)
  let ?g1 = "foldl (\<lambda>g entry. addNode entry g) g entries"
  let ?g2 = "foldl (\<lambda>g entry. foldl (\<lambda>g refId. addEdge (e_id entry) refId Reference 1 g) g
                        (e_references entry)) ?g1 entries"
  have inner: "\<And>g entry. nodes_ok g \<Longrightarrow>
      nodes_ok (foldl (\<lambda>g refId. addEdge (e_id entry) refId Reference 1 g) g (e_references entry))"
    by (rule nodes_ok_fold) (simp_all add: nodes_ok_addEdge)
  have "nodes_ok ?g1" by (rule nodes_ok_fold) (simp_all add: nodes_ok_addNode assms(1))
  then have "nodes_ok ?g2" by (rule nodes_ok_fold[rotated]) (simp add: inner)
  then have "nodes_ok (?g2\<lparr>dirty := True, emitted := emitted ?g2 @ [GraphBuilt (length (nodes ?g2))]\<rparr>)"
    by (simp add: nodes_ok_def)
  then show ?thesis using assms(2) q by (simp add: buildFromBackend_def Let_def)
qed

lemma nodes_similarityFold: "nodes (snd (foldl (similarityStep i) st rs)) = nodes (snd st)"
  by (induction rs arbitrary: st) (simp_all add: similarityStep_def Let_def nodes_addEdge)

lemma nodes_addSimilarityEdges:
  "addSimilarityEdges backend i g = Inr r \<Longrightarrow> nodes (snd r) = nodes g"
  using nodes_similarityFold[of i "(0, g)"]
  by (auto simp: addSimilarityEdges_def split: sum.splits option.splits)

lemma nodes_ok_same: "nodes g' = nodes g \<Longrightarrow> nodes_ok g \<Longrightarrow> nodes_ok g'"
  by (simp add: nodes_ok_def)

lemma nodes_ok_call: "nodes_ok g \<Longrightarrow> nodes_ok (call c g)"
proof (cases c)
  case (AddNode e)
  assume "nodes_ok g"
  then show ?thesis using AddNode by (simp add: nodes_ok_addNode)
next
  case (AddEdge s t ty w)
  assume "nodes_ok g"
  then show ?thesis using AddEdge by (simp add: nodes_ok_addEdge)
next
  case (BuildFromBackend b ns)
  assume "nodes_ok g"
  then show ?thesis using BuildFromBackend nodes_ok_buildFromBackend[of g b ns]
    by (simp split: sum.splits)
next
  case (AddSimilarityEdges b i)
  assume ok: "nodes_ok g"
  show ?thesis
  proof (cases "addSimilarityEdges b i g")
    case (Inl x)
    then show ?thesis using ok AddSimilarityEdges by simp
  next
    case (Inr r)
    from nodes_addSimilarityEdges[OF Inr] ok have "nodes_ok (snd r)" by (rule nodes_ok_same)
    then show ?thesis using Inr AddSimilarityEdges by simp
  qed
next
  case (RemoveNode i)
  assume "nodes_ok g"
  then show ?thesis using RemoveNode nodes_removeNode[of i g] by (simp add: nodes_ok_subset)
next
  case ComputePageRank
  assume "nodes_ok g"
  then show ?thesis using ComputePageRank
    by (simp add: nodes_ok_same[of "fst (computePageRank g)" g] computePageRank_fields)
next
  case (DetectCommunities labels)
  assume "nodes_ok g"
  then show ?thesis using DetectCommunities by (simp add: nodes_ok_def)
next
  case (RankWithGraph rs al)
  assume "nodes_ok g"
  then show ?thesis using RankWithGraph
    by (simp add: rankWithGraph_def Let_def nodes_ok_same[of "fst (computePageRank g)" g]
        computePageRank_fields)
next
  case (GetTopNodes n)
  assume "nodes_ok g"
  then show ?thesis using GetTopNodes
    by (simp add: getTopNodes_def Let_def nodes_ok_same[of "fst (computePageRank g)" g]
        computePageRank_fields)
qed

lemma nodes_ok_run: "nodes_ok g \<Longrightarrow> nodes_ok (run cs g)"
  unfolding run_def by (induction cs arbitrary: g) (simp_all add: nodes_ok_call)

text \<open>
  C10: an accepted \<open>addNode\<close> stores the node with confidence 0.5 when the metadata
  carries confidence 0, and with category \<open>general\<close> when it carries the empty string;
  in every state reached from the empty graph no stored node has confidence 0.
\<close>

theorem addNode_falsy_defaults:
  "(\<not> (of_nat (length (nodes g)) \<ge> maxNodes (config g) \<and> \<not> has (nodes g) (e_id e)) \<longrightarrow>
      (e_metadata e = Some m \<and> m_confidence m = Some 0 \<longrightarrow>
         map_option n_confidence (map_of (nodes (addNode e g)) (e_id e)) = Some (1 / 2)) \<and>
      (e_metadata e = Some m \<and> m_category m = Some [] \<longrightarrow>
         map_option n_category (map_of (nodes (addNode e g)) (e_id e)) = Some ''general''))
   \<and> (\<forall>p \<in> set (nodes (run cs (new cfg))). n_confidence (snd p) \<noteq> 0)"
proof (intro conjI impI)
  have "nodes_ok (new cfg)" by (simp add: nodes_ok_def new_def)
  then have "nodes_ok (run cs (new cfg))" by (rule nodes_ok_run)
  then show "\<forall>p \<in> set (nodes (run cs (new cfg))). n_confidence (snd p) \<noteq> 0"
    by (simp add: nodes_ok_def)
next
  assume a: "\<not> (of_nat (length (nodes g)) \<ge> maxNodes (config g) \<and> \<not> has (nodes g) (e_id e))"
    and m: "e_metadata e = Some m \<and> m_confidence m = Some 0"
  show "map_option n_confidence (map_of (nodes (addNode e g)) (e_id e)) = Some (1 / 2)"
    using m by (simp add: addNode_stores[OF a] graphNode_def num_or_def)
next
  assume a: "\<not> (of_nat (length (nodes g)) \<ge> maxNodes (config g) \<and> \<not> has (nodes g) (e_id e))"
    and m: "e_metadata e = Some m \<and> m_category m = Some []"
  show "map_option n_category (map_of (nodes (addNode e g)) (e_id e)) = Some ''general''"
    using m by (simp add: addNode_stores[OF a] graphNode_def str_or_def)
qed

theorem addNode_falsy_defaults_witness:
  "(let g = new DEFAULT_CONFIG;
        m = \<lparr>m_category = Some [], m_confidence = Some 0\<rparr>;
        e = (plainEntry ''a'')\<lparr>e_metadata := Some m\<rparr>
    in \<not> (of_nat (length (nodes g)) \<ge> maxNodes (config g) \<and> \<not> has (nodes g) (e_id e))
       \<and> e_metadata e = Some m \<and> m_confidence m = Some 0 \<and> m_category m = Some []
       \<and> map_option n_confidence (map_of (nodes (addNode e g)) (e_id e)) = Some (1 / 2)
       \<and> map_option n_category (map_of (nodes (addNode e g)) (e_id e)) = Some ''general''
       \<and> (\<forall>p \<in> set (nodes (run [AddNode e :: unit Call] g)). n_confidence (snd p) \<noteq> 0))"
  using addNode_falsy_defaults[of "new DEFAULT_CONFIG"
      "(plainEntry ''a'')\<lparr>e_metadata := Some \<lparr>m_category = Some [], m_confidence = Some 0\<rparr>\<rparr>"
      "\<lparr>m_category = Some [], m_confidence = Some 0\<rparr>"
      "[AddNode ((plainEntry ''a'')\<lparr>e_metadata := Some \<lparr>m_category = Some [], m_confidence = Some 0\<rparr>\<rparr>) :: unit Call]"
      DEFAULT_CONFIG]
  by (simp add: Let_def new_def DEFAULT_CONFIG_def plainEntry_def has_def)

subsection \<open>Removal\<close>

lemma removeNode_clean:
  assumes w: "invar g" and h: "has (nodes g) x"
  shows "(\<forall>p \<in> set (edges (removeNode x g)). \<forall>e \<in> set (snd p). targetId e \<noteq> x)"
    "(\<forall>p \<in> set (reverseEdges (removeNode x g)). x \<notin> set (snd p))"
    "\<not> has (nodes (removeNode x g)) x" "\<not> has (edges (removeNode x g)) x"
    "\<not> has (reverseEdges (removeNode x g)) x" "\<not> has (pageRanks (removeNode x g)) x"
    "\<not> has (communities (removeNode x g)) x"
proof -
  let ?g = "removeNode x g"
  have w': "invar ?g" using w by (rule invar_removeNode)
  show "\<forall>p \<in> set (edges ?g). \<forall>e \<in> set (snd p). targetId e \<noteq> x"
  proof (intro ballI)
    fix p e assume "p \<in> set (edges ?g)" "e \<in> set (snd p)"
    then have "(fst p, snd p) \<in> set (edges ?g)" by simp
    then have "map_of (edges ?g) (fst p) = Some (snd p)"
      by (rule map_of_is_SomeI[OF wf_distinct(2)[OF w']])
    with \<open>e \<in> set (snd p)\<close> have "hasEdge ?g (fst p) (targetId e)"
      by (auto simp: hasEdge_def list_ex_iff)
    then show "targetId e \<noteq> x" by (simp add: hasEdge_removeNode[OF w h])
  qed
  show "\<forall>p \<in> set (reverseEdges ?g). x \<notin> set (snd p)"
  proof
    fix p assume "p \<in> set (reverseEdges ?g)"
    then have "(fst p, snd p) \<in> set (reverseEdges ?g)" by simp
    then have "map_of (reverseEdges ?g) (fst p) = Some (snd p)"
      by (rule map_of_is_SomeI[OF wf_distinct(3)[OF w']])
    then have "snd p = incoming ?g (fst p)" by (simp add: incoming_Some)
    then show "x \<notin> set (snd p)"
      by (simp add: incoming_removeNode[OF w h, of "fst p"])
  qed
  show "\<not> has (nodes ?g) x" "\<not> has (pageRanks ?g) x" "\<not> has (communities ?g) x"
    using removeNode_simple[OF h] by simp_all
  show "\<not> has (edges ?g) x" by (simp add: has_def removeNode_edges[OF w h])
  show "\<not> has (reverseEdges ?g) x" by (simp add: has_def removeNode_rev[OF w h])
qed

text \<open>
  C5: in a state reached from the empty graph, after \<open>removeNode x\<close> of a node \<open>x\<close>
  no edge list holds an edge to \<open>x\<close>, no reverse set names \<open>x\<close>, and \<open>x\<close> is a key of
  none of the five maps; \<open>removeNode\<close> of an id that is not a node returns the state
  it was given.
\<close>

theorem removeNode_erases:
  "(has (nodes (run cs (new cfg))) x \<longrightarrow>
      (let g' = removeNode x (run cs (new cfg)) in
         (\<forall>p \<in> set (edges g'). \<forall>e \<in> set (snd p). targetId e \<noteq> x) \<and>
         (\<forall>p \<in> set (reverseEdges g'). x \<notin> set (snd p)) \<and>
         \<not> has (nodes g') x \<and> \<not> has (edges g') x \<and> \<not> has (reverseEdges g') x \<and>
         \<not> has (pageRanks g') x \<and> \<not> has (communities g') x))
   \<and> (\<not> has (nodes g) y \<longrightarrow> removeNode y g = g)"
  using removeNode_clean[OF invar_reachable, of cs cfg x] removeNode_skip[of g y]
  by (simp add: Let_def)

theorem removeNode_erases_witness:
  "(let cs = [AddNode (plainEntry ''a''), AddNode (plainEntry ''b''),
              AddEdge ''a'' ''b'' Reference 1, AddEdge ''b'' ''a'' Reference 1,
              AddEdge ''b'' ''b'' Similar 1, ComputePageRank] :: unit Call list;
        g = run cs (new DEFAULT_CONFIG);
        g' = removeNode ''b'' g
    in has (nodes g) ''b'' \<and>
       (\<forall>p \<in> set (edges g'). \<forall>e \<in> set (snd p). targetId e \<noteq> ''b'') \<and>
       (\<forall>p \<in> set (reverseEdges g'). ''b'' \<notin> set (snd p)) \<and>
       \<not> has (nodes g') ''b'' \<and> \<not> has (edges g') ''b'' \<and> \<not> has (reverseEdges g') ''b'' \<and>
       \<not> has (pageRanks g') ''b'' \<and> \<not> has (communities g') ''b'' \<and>
       \<not> has (nodes g) ''c'' \<and> removeNode ''c'' g = g)"
proof -
  let ?cs = "[AddNode (plainEntry ''a''), AddNode (plainEntry ''b''),
              AddEdge ''a'' ''b'' Reference 1, AddEdge ''b'' ''a'' Reference 1,
              AddEdge ''b'' ''b'' Similar 1, ComputePageRank] :: unit Call list"
  have n: "map fst (nodes (run ?cs (new DEFAULT_CONFIG))) = [''a'', ''b'']"
    by (simp add: run_def computePageRank_fields nodes_addEdge addNode_def Let_def new_def
        DEFAULT_CONFIG_def plainEntry_def has_def)
  then have h: "has (nodes (run ?cs (new DEFAULT_CONFIG))) ''b''"
    and h': "\<not> has (nodes (run ?cs (new DEFAULT_CONFIG))) ''c''"
    by (simp_all add: has_iff)
  from removeNode_erases[of ?cs DEFAULT_CONFIG "''b''" "run ?cs (new DEFAULT_CONFIG)" "''c''"] h h'
  show ?thesis by (simp add: Let_def)
qed

subsection \<open>Similarity edges\<close>

text \<open>
  C1: the store holds \<open>a\<close> and \<open>b\<close> and the graph only the node \<open>a\<close>. The search
  returns \<open>b\<close> with score 0.9; \<open>addEdge\<close> skips the pair because \<open>b\<close> is not a
  node, the graph is returned as it was, and the call still reports one edge added.
\<close>

theorem addSimilarityEdges_counts_skipped:
  "addSimilarityEdges twoEntryStore ''a'' graphOnlyA = Inr (1, graphOnlyA)
   \<and> \<not> hasEdge graphOnlyA ''a'' ''b''"
  by (simp add: addSimilarityEdges_def twoEntryStore_def storedEntry_def plainEntry_def
      graphOnlyA_def similarityStep_def Let_def hasEdge_def addEdge_def addNode_def
      new_def DEFAULT_CONFIG_def has_def graphNode_def)

lemma addSimilarityEdges_absent:
  "b_get backend i = Inr None \<or> (\<exists>e. b_get backend i = Inr (Some e) \<and> e_embedding e = None)
   \<Longrightarrow> addSimilarityEdges backend i g = Inr (0, g)"
  by (auto simp: addSimilarityEdges_def)

subsection \<open>One edge for a pair\<close>

lemma outEdges_addEdge:
  assumes "has (nodes g) s" "has (nodes g) t"
  shows "outEdges (addEdge s t ty x g) s =
     (if list_ex (\<lambda>e. targetId e = t) (outEdges g s)
      then map_first (\<lambda>e. targetId e = t) (\<lambda>e. e\<lparr>weight := max (weight e) x\<rparr>) (outEdges g s)
      else outEdges g s @ [\<lparr>targetId = t, etype = ty, weight = x\<rparr>])"
proof (cases "find (\<lambda>e. targetId e = t) (outEdges g s)")
  case None
  then have "\<not> list_ex (\<lambda>e. targetId e = t) (outEdges g s)" by (simp add: find_ex)
  with None assms show ?thesis
    by (simp add: addEdge_def Let_def outEdges_def)
next
  case (Some a)
  then have "list_ex (\<lambda>e. targetId e = t) (outEdges g s)"
    using find_ex[of "\<lambda>e. targetId e = t" "outEdges g s"] by simp
  with Some assms show ?thesis
    by (simp add: addEdge_def Let_def outEdges_def)
qed

lemma filter_map_first:
  assumes "\<And>x. P (f x) = P x"
  shows "filter P (map_first P f es) = (case filter P es of [] \<Rightarrow> [] | x # xs \<Rightarrow> f x # xs)"
  by (induction es) (auto simp: assms)

lemma filter_target_addEdge:
  assumes "has (nodes g) u" "has (nodes g) v"
  shows "filter (\<lambda>e. targetId e = v) (outEdges (addEdge u v ty x g) u) =
     (case filter (\<lambda>e. targetId e = v) (outEdges g u) of
        [] \<Rightarrow> [\<lparr>targetId = v, etype = ty, weight = x\<rparr>]
      | e # es \<Rightarrow> e\<lparr>weight := max (weight e) x\<rparr> # es)"
proof (cases "list_ex (\<lambda>e. targetId e = v) (outEdges g u)")
  case True
  then have "filter (\<lambda>e. targetId e = v) (outEdges g u) \<noteq> []"
    by (auto simp: list_ex_iff filter_empty_conv)
  then show ?thesis using True
    by (simp add: outEdges_addEdge[OF assms] filter_map_first split: list.splits)
next
  case False
  then have "filter (\<lambda>e. targetId e = v) (outEdges g u) = []"
    by (auto simp: list_ex_iff filter_empty_conv)
  then show ?thesis using False by (simp add: outEdges_addEdge[OF assms])
qed

lemma addEdges_single:
  assumes "has (nodes g) u" "has (nodes g) v"
    "filter (\<lambda>e. targetId e = v) (outEdges g u) = [\<lparr>targetId = v, etype = t, weight = w0\<rparr>]"
  shows "filter (\<lambda>e. targetId e = v)
           (outEdges (foldl (\<lambda>g c. addEdge u v (fst c) (snd c) g) g cs) u)
         = [\<lparr>targetId = v, etype = t, weight = Max (insert w0 (set (map snd cs)))\<rparr>]"
  using assms
proof (induction cs arbitrary: g w0)
  case Nil then show ?case by simp
next
  case (Cons c cs)
  let ?g = "addEdge u v (fst c) (snd c) g"
  have n: "has (nodes ?g) u" "has (nodes ?g) v" using Cons.prems by (simp_all add: nodes_addEdge)
  have f: "filter (\<lambda>e. targetId e = v) (outEdges ?g u)
      = [\<lparr>targetId = v, etype = t, weight = max w0 (snd c)\<rparr>]"
    using Cons.prems by (simp add: filter_target_addEdge)
  have "Max (insert (max w0 (snd c)) (set (map snd cs))) = Max (insert w0 (set (map snd (c # cs))))"
  proof -
    have "Max (insert (max w0 (snd c)) (snd ` set cs)) = max (max w0 (snd c)) (Max (insert (max w0 (snd c)) (snd ` set cs)))"
      by (simp add: max_def)
    have a: "insert w0 (set (map snd (c # cs))) = insert w0 (insert (snd c) (snd ` set cs))" by simp
    show ?thesis
    proof (cases "cs = []")
      case True then show ?thesis by (simp add: max.commute)
    next
      case False
      then have ne: "snd ` set cs \<noteq> {}" by simp
      show ?thesis unfolding a using ne
        by (simp add: Max_insert max.assoc)
    qed
  qed
  with Cons.IH[OF n f] show ?case by simp
qed

lemma map_first_append_fresh:
  "\<not> list_ex P es \<Longrightarrow> map_first P f (es @ [y]) = es @ (if P y then [f y] else [y])"
  by (induction es) auto

lemma map_first_idem:
  assumes "\<And>x. P (f x) = P x" "\<And>x. f (f x) = f x"
  shows "map_first P f (map_first P f es) = map_first P f es"
  by (induction es) (auto simp: assms)

lemma set_add_idem: "set_add s (set_add s xs) = set_add s xs"
  by (simp add: set_add_def)

lemma list_ex_map_first:
  "(\<And>x. P (f x) = P x) \<Longrightarrow> list_ex P (map_first P f es) = list_ex P es"
  by (induction es) auto

lemma addEdge_twice: "addEdge s t ty x (addEdge s t ty x g) = addEdge s t ty x g"
proof (cases "has (nodes g) s \<and> has (nodes g) t")
  case False
  then show ?thesis by (auto simp: addEdge_def)
next
  case True
  let ?es = "get_or (edges g) s []"
  let ?P = "\<lambda>e. targetId e = t"
  let ?f = "\<lambda>e. e\<lparr>weight := max (weight e) x\<rparr>"
  show ?thesis
  proof (cases "find ?P ?es")
    case None
    then have "\<not> list_ex ?P ?es" by (simp add: find_ex)
    then have m: "map_first ?P ?f (?es @ [\<lparr>targetId = t, etype = ty, weight = x\<rparr>])
        = ?es @ [\<lparr>targetId = t, etype = ty, weight = x\<rparr>]"
      by (simp add: map_first_append_fresh)
    have "find ?P (?es @ [\<lparr>targetId = t, etype = ty, weight = x\<rparr>]) \<noteq> None"
      by (simp add: find_ex)
    then obtain a where a: "find ?P (?es @ [\<lparr>targetId = t, etype = ty, weight = x\<rparr>]) = Some a"
      by auto
    show ?thesis using True None a m
      by (simp add: addEdge_def Let_def set_add_idem)
  next
    case (Some e0)
    then have "list_ex ?P ?es" using find_ex[of ?P ?es] by simp
    then have "list_ex ?P (map_first ?P ?f ?es)" by (simp add: list_ex_map_first)
    then have "find ?P (map_first ?P ?f ?es) \<noteq> None" by (simp add: find_ex)
    then obtain a where a: "find ?P (map_first ?P ?f ?es) = Some a" by auto
    have m: "map_first ?P ?f (map_first ?P ?f ?es) = map_first ?P ?f ?es"
      by (rule map_first_idem) simp_all
    show ?thesis using True Some a m
      by (simp add: addEdge_def Let_def set_add_idem)
  qed
qed

lemma addNode_twice: "addNode e (addNode e g) = addNode e g"
  by (simp add: addNode_def Let_def length_update)

text \<open>
  C4: for nodes \<open>u\<close> and \<open>v\<close> with no edge from \<open>u\<close> to \<open>v\<close> yet, after the calls
  \<open>addEdge u v t w\<close> and then \<open>addEdge u v t' w'\<close> for every \<open>(t', w')\<close> of a list, the
  edge list of \<open>u\<close> holds exactly one edge to \<open>v\<close>; its type is \<open>t\<close>, the type of the
  first call, and its weight the greatest weight passed. A second \<open>addEdge\<close> with the
  same arguments returns the state of the first, and so does a second \<open>addNode\<close>.
\<close>

theorem addEdge_one_edge_max_weight:
  "(has (nodes g) u \<and> has (nodes g) v \<and> \<not> hasEdge g u v \<longrightarrow>
      filter (\<lambda>e. targetId e = v)
        (outEdges (foldl (\<lambda>g c. addEdge u v (fst c) (snd c) g) g ((t, w) # cs)) u)
      = [\<lparr>targetId = v, etype = t, weight = Max (set (w # map snd cs))\<rparr>])
   \<and> addEdge s d ty x (addEdge s d ty x g0) = addEdge s d ty x g0
   \<and> addNode e (addNode e g0) = addNode e g0"
proof (intro conjI impI)
  assume a: "has (nodes g) u \<and> has (nodes g) v \<and> \<not> hasEdge g u v"
  then have hu: "has (nodes g) u" and hv: "has (nodes g) v" and ne: "\<not> hasEdge g u v"
    by simp_all
  let ?g = "addEdge u v t w g"
  from ne have "filter (\<lambda>e. targetId e = v) (outEdges g u) = []"
    by (auto simp: hasEdge_iff filter_empty_conv)
  then have f: "filter (\<lambda>e. targetId e = v) (outEdges ?g u)
      = [\<lparr>targetId = v, etype = t, weight = w\<rparr>]"
    by (simp add: filter_target_addEdge[OF hu hv])
  have n: "has (nodes ?g) u" "has (nodes ?g) v" using hu hv by (simp_all add: nodes_addEdge)
  from addEdges_single[OF n f, of cs]
  show "filter (\<lambda>e. targetId e = v)
        (outEdges (foldl (\<lambda>g c. addEdge u v (fst c) (snd c) g) g ((t, w) # cs)) u)
      = [\<lparr>targetId = v, etype = t, weight = Max (set (w # map snd cs))\<rparr>]"
    by simp
next
  show "addEdge s d ty x (addEdge s d ty x g0) = addEdge s d ty x g0" by (rule addEdge_twice)
next
  show "addNode e (addNode e g0) = addNode e g0" by (rule addNode_twice)
qed

theorem addEdge_one_edge_max_weight_witness:
  "(let g = addNode (plainEntry ''b'') (addNode (plainEntry ''a'') (new DEFAULT_CONFIG)) in
      has (nodes g) ''a'' \<and> has (nodes g) ''b'' \<and> \<not> hasEdge g ''a'' ''b'' \<and>
      filter (\<lambda>e. targetId e = ''b'')
        (outEdges (foldl (\<lambda>g c. addEdge ''a'' ''b'' (fst c) (snd c) g) g
            [(Reference, 1 / 2), (Similar, 9 / 10), (Causal, 3 / 10)]) ''a'')
      = [\<lparr>targetId = ''b'', etype = Reference, weight = 9 / 10\<rparr>])"
proof -
  let ?g = "addNode (plainEntry ''b'') (addNode (plainEntry ''a'') (new DEFAULT_CONFIG))"
  have h: "has (nodes ?g) ''a'' \<and> has (nodes ?g) ''b'' \<and> \<not> hasEdge ?g ''a'' ''b''"
    by (simp add: addNode_def Let_def new_def DEFAULT_CONFIG_def plainEntry_def has_def
        hasEdge_def)
  have m: "Max (set ((1 / 2 :: rat) # map snd [(Similar, 9 / 10 :: rat), (Causal, 3 / 10)])) = 9 / 10"
    by simp
  from addEdge_one_edge_max_weight[of ?g "''a''" "''b''" Reference "1 / 2"
      "[(Similar, 9 / 10), (Causal, 3 / 10)]"] h m
  show ?thesis by (simp add: Let_def)
qed

subsection \<open>The dirty flag\<close>
























subsection \<open>Neighbours\<close>

lemma set_set_add: "set (set_add x xs) = insert x (set xs)"
  by (auto simp: set_add_def)

lemma distinct_set_add: "distinct xs \<Longrightarrow> distinct (set_add x xs)"
  by (simp add: set_add_def)

text \<open>The inner loop over the edges of one frontier node.\<close>

lemma gn_edges_sets:
  "set (fst (foldl (\<lambda>st edge.
              if targetId edge \<notin> set (fst st) \<and> targetId edge \<noteq> i
              then (set_add (targetId edge) (fst st), set_add (targetId edge) (snd st))
              else st) st es))
     = set (fst st) \<union> (targetId ` set es - {i})
   \<and> set (snd (foldl (\<lambda>st edge.
              if targetId edge \<notin> set (fst st) \<and> targetId edge \<noteq> i
              then (set_add (targetId edge) (fst st), set_add (targetId edge) (snd st))
              else st) st es))
     = set (snd st) \<union> (targetId ` set es - set (fst st) - {i})
   \<and> (distinct (fst st) \<longrightarrow> distinct (fst (foldl (\<lambda>st edge.
              if targetId edge \<notin> set (fst st) \<and> targetId edge \<noteq> i
              then (set_add (targetId edge) (fst st), set_add (targetId edge) (snd st))
              else st) st es)))"
proof (induction es arbitrary: st)
  case Nil show ?case by simp
next
  case (Cons e es)
  let ?st = "if targetId e \<notin> set (fst st) \<and> targetId e \<noteq> i
             then (set_add (targetId e) (fst st), set_add (targetId e) (snd st)) else st"
  show ?case using Cons.IH[of ?st]
    by (auto simp: set_set_add distinct_set_add)
qed

lemma gn_level_sets:
  "set (fst (gn_level g i visited frontier))
     = set visited \<union> (edgeRel g `` set frontier - {i})
   \<and> set (snd (gn_level g i visited frontier))
     = edgeRel g `` set frontier - set visited - {i}
   \<and> (distinct visited \<longrightarrow> distinct (fst (gn_level g i visited frontier)))"
proof -
  let ?inner = "\<lambda>st nodeId. foldl (\<lambda>st edge.
              if targetId edge \<notin> set (fst st) \<and> targetId edge \<noteq> i
              then (set_add (targetId edge) (fst st), set_add (targetId edge) (snd st))
              else st) st (get_or (edges g) nodeId [])"
  have "set (fst (foldl ?inner st fr)) = set (fst st) \<union> (edgeRel g `` set fr - {i})
      \<and> set (snd (foldl ?inner st fr)) = set (snd st) \<union> (edgeRel g `` set fr - set (fst st) - {i})
      \<and> (distinct (fst st) \<longrightarrow> distinct (fst (foldl ?inner st fr)))" for st fr
  proof (induction fr arbitrary: st)
    case Nil show ?case by simp
  next
    case (Cons n fr)
    have e: "edgeRel g `` {n} = targetId ` set (get_or (edges g) n [])"
      by (auto simp: edgeRel_def outEdges_def)
    have u: "edgeRel g `` set (n # fr) = edgeRel g `` {n} \<union> edgeRel g `` set fr" by auto
    note a = gn_edges_sets[of i st "get_or (edges g) n []"]
    note b = Cons.IH[of "?inner st n"]
    show ?case unfolding foldl_Cons u e using a b by auto
  qed
  from this[of "(visited, [])" frontier] show ?thesis
    by (simp add: gn_level_def)
qed

lemma gn_level_empty: "gn_level g i visited [] = (visited, [])"
  by (simp add: gn_level_def)

lemma gn_loop_empty: "gn_loop g i n visited [] = visited"
  by (cases n) (simp_all add: gn_level_empty Let_def)

lemma gn_loop_Suc:
  "gn_loop g i (Suc n) visited frontier =
     gn_loop g i n (fst (gn_level g i visited frontier)) (snd (gn_level g i visited frontier))"
  by (cases "snd (gn_level g i visited frontier)") (simp_all add: Let_def gn_loop_empty)

text \<open>The ids that at most \<open>k\<close> edges reach, the start among them.\<close>

lemma gn_loop_reach:
  assumes "set visited = {v. \<exists>j\<le>k. (i, v) \<in> edgeRel g ^^ j} - {i}"
    "set frontier \<subseteq> {v. (i, v) \<in> edgeRel g ^^ k}"
    "{v. \<exists>j\<le>k. (i, v) \<in> edgeRel g ^^ j}
       \<subseteq> set frontier \<union> {v. \<exists>j<k. (i, v) \<in> edgeRel g ^^ j}"
  shows "set (gn_loop g i n visited frontier) = {v. \<exists>j\<le>k + n. (i, v) \<in> edgeRel g ^^ j} - {i}"
  using assms
proof (induction n arbitrary: visited frontier k)
  case 0 then show ?case by simp
next
  case (Suc n)
  let ?E = "edgeRel g"
  let ?V = "fst (gn_level g i visited frontier)"
  let ?F = "snd (gn_level g i visited frontier)"
  note lv = gn_level_sets[of g i visited frontier]
  have V: "set ?V = set visited \<union> (?E `` set frontier - {i})" using lv by simp
  have F: "set ?F = ?E `` set frontier - set visited - {i}" using lv by simp
  have fr: "?E `` set frontier \<subseteq> {v. (i, v) \<in> ?E ^^ Suc k}"
    using Suc.prems(2) by auto
  have a: "set ?V = {v. \<exists>j\<le>Suc k. (i, v) \<in> ?E ^^ j} - {i}"
  proof (intro equalityI subsetI)
    fix v assume "v \<in> set ?V"
    then consider "v \<in> set visited" | "v \<in> ?E `` set frontier" "v \<noteq> i" unfolding V by blast
    then show "v \<in> {v. \<exists>j\<le>Suc k. (i, v) \<in> ?E ^^ j} - {i}"
    proof cases
      case 1
      then obtain j where "j \<le> k" "(i, v) \<in> ?E ^^ j" "v \<noteq> i" unfolding Suc.prems(1) by blast
      then show ?thesis using le_SucI by blast
    next
      case 2
      with fr have "(i, v) \<in> ?E ^^ Suc k" by blast
      with 2 show ?thesis by blast
    qed
  next
    fix v assume "v \<in> {v. \<exists>j\<le>Suc k. (i, v) \<in> ?E ^^ j} - {i}"
    then obtain j where j: "j \<le> Suc k" "(i, v) \<in> ?E ^^ j" and ne: "v \<noteq> i" by blast
    show "v \<in> set ?V"
    proof (cases "j \<le> k")
      case True
      with j ne have "v \<in> set visited" unfolding Suc.prems(1) by blast
      then show ?thesis unfolding V by blast
    next
      case False
      with j have jk: "j = Suc k" by simp
      with j obtain u where u: "(i, u) \<in> ?E ^^ k" "(u, v) \<in> ?E" by auto
      then have "u \<in> {v. \<exists>j\<le>k. (i, v) \<in> ?E ^^ j}" by blast
      with Suc.prems(3) consider "u \<in> set frontier" | "\<exists>j<k. (i, u) \<in> ?E ^^ j" by blast
      then show ?thesis
      proof cases
        case 1
        with u have "v \<in> ?E `` set frontier" by blast
        with ne show ?thesis unfolding V by blast
      next
        case 2
        then obtain j' where "j' < k" "(i, u) \<in> ?E ^^ j'" by blast
        with u have "Suc j' \<le> k" "(i, v) \<in> ?E ^^ Suc j'" by auto
        with ne have "v \<in> set visited" unfolding Suc.prems(1) by blast
        then show ?thesis unfolding V by blast
      qed
    qed
  qed
  have b: "set ?F \<subseteq> {v. (i, v) \<in> ?E ^^ Suc k}" unfolding F using fr by blast
  have c: "{v. \<exists>j\<le>Suc k. (i, v) \<in> ?E ^^ j} \<subseteq> set ?F \<union> {v. \<exists>j<Suc k. (i, v) \<in> ?E ^^ j}"
  proof
    fix v assume v: "v \<in> {v. \<exists>j\<le>Suc k. (i, v) \<in> ?E ^^ j}"
    show "v \<in> set ?F \<union> {v. \<exists>j<Suc k. (i, v) \<in> ?E ^^ j}"
    proof (cases "\<exists>j\<le>k. (i, v) \<in> ?E ^^ j")
      case True
      then show ?thesis using less_Suc_eq_le by blast
    next
      case False
      then have ni: "v \<noteq> i" by (metis le0 relpow_0_I)
      from False have nv: "v \<notin> set visited" unfolding Suc.prems(1) by blast
      from v ni have "v \<in> set ?V" unfolding a by blast
      with nv ni have "v \<in> set ?F" unfolding V F by blast
      then show ?thesis by blast
    qed
  qed
  from Suc.IH[OF a b c] show ?case by (simp add: gn_loop_Suc del: gn_loop.simps)
qed

lemma gn_loop_distinct: "distinct visited \<Longrightarrow> distinct (gn_loop g i n visited frontier)"
proof (induction n arbitrary: visited frontier)
  case 0 then show ?case by simp
next
  case (Suc n)
  from Suc.prems gn_level_sets[of g i visited frontier]
  have "distinct (fst (gn_level g i visited frontier))" by simp
  from Suc.IH[OF this] show ?case by (simp add: gn_loop_Suc del: gn_loop.simps)
qed

lemma getNeighbors_set: "set (getNeighbors g i depth) = reachableWithin g i depth"
proof -
  have "set (gn_loop g i depth [] [i]) = {v. \<exists>j\<le>0 + depth. (i, v) \<in> edgeRel g ^^ j} - {i}"
    by (rule gn_loop_reach) auto
  also have "\<dots> = reachableWithin g i depth"
  proof (intro equalityI subsetI)
    fix v assume "v \<in> {v. \<exists>j\<le>0 + depth. (i, v) \<in> edgeRel g ^^ j} - {i}"
    then obtain j where j: "j \<le> depth" "(i, v) \<in> edgeRel g ^^ j" "v \<noteq> i" by auto
    then have "j \<noteq> 0" by (cases j) auto
    with j show "v \<in> reachableWithin g i depth"
      unfolding reachableWithin_def by (auto intro!: exI[of _ j])
  next
    fix v assume "v \<in> reachableWithin g i depth"
    then show "v \<in> {v. \<exists>j\<le>0 + depth. (i, v) \<in> edgeRel g ^^ j} - {i}"
      unfolding reachableWithin_def by auto
  qed
  finally show ?thesis by (simp add: getNeighbors_def)
qed

lemma getNeighbors_missing:
  assumes "invar g" "\<not> has (nodes g) i"
  shows "getNeighbors g i depth = []"
proof -
  from assms wf_slots(1)[OF assms(1), of i] have "get_or (edges g) i [] = []"
    by (simp add: has_def get_or_def)
  then have "gn_level g i [] [i] = ([], [])" by (simp add: gn_level_def)
  then show ?thesis by (cases depth) (simp_all add: getNeighbors_def Let_def)
qed

lemma chain_edges:
  "edges chainABCD =
     [(''A'', [\<lparr>targetId = ''B'', etype = Reference, weight = 1\<rparr>]),
      (''B'', [\<lparr>targetId = ''C'', etype = Reference, weight = 1\<rparr>]),
      (''C'', [\<lparr>targetId = ''D'', etype = Reference, weight = 1\<rparr>]),
      (''D'', [])]"
  by (simp add: chainABCD_def run_def addNode_def addEdge_def Let_def
      new_def DEFAULT_CONFIG_def plainEntry_def has_def get_or_def set_add_def)

lemma chain_neighbors:
  "getNeighbors chainABCD ''A'' 1 = [''B'']"
  "getNeighbors chainABCD ''A'' 2 = [''B'', ''C'']"
  "getNeighbors chainABCD ''A'' 10 = [''B'', ''C'', ''D'']"
  by (simp_all add: getNeighbors_def gn_level_def chain_edges get_or_def set_add_def Let_def
      eval_nat_numeral)

text \<open>
  C9: \<open>getNeighbors g i depth\<close> lists, each once, exactly the ids other than \<open>i\<close> that
  one to \<open>depth\<close> outgoing edges reach from \<open>i\<close>; in a state reached from the empty
  graph an id that is not a node has no neighbours; on the chain
  \<open>A \<rightarrow> B \<rightarrow> C \<rightarrow> D\<close> the depths 1, 2 and 10 give \<open>B\<close>, then \<open>B, C\<close>, then \<open>B, C, D\<close>.
\<close>

theorem getNeighbors_reachable:
  "set (getNeighbors g i depth) = reachableWithin g i depth
   \<and> distinct (getNeighbors g i depth)
   \<and> (\<not> has (nodes (run cs (new cfg))) j \<longrightarrow> getNeighbors (run cs (new cfg)) j d = [])
   \<and> getNeighbors chainABCD ''A'' 1 = [''B'']
   \<and> getNeighbors chainABCD ''A'' 2 = [''B'', ''C'']
   \<and> getNeighbors chainABCD ''A'' 10 = [''B'', ''C'', ''D'']"
proof (intro conjI impI)
  show "set (getNeighbors g i depth) = reachableWithin g i depth" by (rule getNeighbors_set)
  show "distinct (getNeighbors g i depth)"
    unfolding getNeighbors_def by (rule gn_loop_distinct) simp
  show "getNeighbors (run cs (new cfg)) j d = []" if "\<not> has (nodes (run cs (new cfg))) j"
    using invar_reachable that by (rule getNeighbors_missing)
qed (rule chain_neighbors)+

theorem getNeighbors_reachable_witness:
  "\<not> has (nodes (run [AddNode (plainEntry ''A''), AddNode (plainEntry ''B''),
                      AddEdge ''A'' ''B'' Reference 1 :: unit Call] (new DEFAULT_CONFIG))) ''Z''
   \<and> getNeighbors (run [AddNode (plainEntry ''A''), AddNode (plainEntry ''B''),
                      AddEdge ''A'' ''B'' Reference 1 :: unit Call] (new DEFAULT_CONFIG)) ''Z'' 3 = []"
proof -
  have "\<not> has (nodes (run [AddNode (plainEntry ''A''), AddNode (plainEntry ''B''),
                      AddEdge ''A'' ''B'' Reference 1 :: unit Call] (new DEFAULT_CONFIG))) ''Z''"
    by (simp add: run_def nodes_addEdge addNode_def Let_def new_def DEFAULT_CONFIG_def
        plainEntry_def has_def)
  with getNeighbors_reachable[of _ _ _ "[AddNode (plainEntry ''A''), AddNode (plainEntry ''B''),
                      AddEdge ''A'' ''B'' Reference 1 :: unit Call]" DEFAULT_CONFIG "''Z''" 3]
  show ?thesis by simp
qed

subsection \<open>Ranking\<close>










subsection \<open>PageRank: the ranks sum to one\<close>




















subsection \<open>PageRank on a graph with two dangling nodes\<close>

lemma danglingABC_state:
  "map fst (nodes (danglingABC passes tolerance)) = [''A'', ''B'', ''C'']"
  "edges (danglingABC passes tolerance) =
     [(''A'', [\<lparr>targetId = ''B'', etype = Reference, weight = 1\<rparr>,
               \<lparr>targetId = ''C'', etype = Reference, weight = 1\<rparr>]),
      (''B'', []), (''C'', [])]"
  "reverseEdges (danglingABC passes tolerance) = [(''A'', []), (''B'', [''A'']), (''C'', [''A''])]"
  "pageRanks (danglingABC passes tolerance) = []"
  "pageRankDamping (config (danglingABC passes tolerance)) = 85 / 100"
  "pageRankIterations (config (danglingABC passes tolerance)) = passes"
  by (simp_all add: danglingABC_def run_def addNode_def addEdge_def Let_def
      new_def DEFAULT_CONFIG_def plainEntry_def has_def get_or_def set_add_def)

text \<open>One pass: \<open>A\<close> has no incoming edge, \<open>B\<close> and \<open>C\<close> each take half the rank of \<open>A\<close>.\<close>

lemma danglingABC_pass:
  "fst (pr_iteration (danglingABC passes tolerance) [''B'', ''C'']
          [(''A'', a), (''B'', b), (''C'', c)])
   = [(''A'', (1 - 85 / 100) / 3 + 85 / 100 * (0 + (b + c) / 3)),
      (''B'', (1 - 85 / 100) / 3 + 85 / 100 * (a / 2 + (b + c) / 3)),
      (''C'', (1 - 85 / 100) / 3 + 85 / 100 * (a / 2 + (b + c) / 3))]"
proof -
  let ?g = "danglingABC passes tolerance"
  note st = danglingABC_state[of passes tolerance]
  have l: "length (nodes ?g) = 3" using st(1) by (metis length_map length_Cons list.size(3) numeral_3_eq_3)
  have d: "distinct (map fst (nodes ?g))" by (simp add: st(1))
  show ?thesis
    unfolding pr_iteration_fst[OF d] st(1)
    by (simp add: newRank_def incomingSum_def Let_def st l rankOf_def num_or_def outDegree_def)
qed

lemma pr_loop_Suc:
  "fst (pr_loop g dn (Suc m) it pr) =
     (if snd (pr_iteration g dn pr) < pageRankConvergence (config g)
      then fst (pr_iteration g dn pr)
      else fst (pr_loop g dn m (Suc it) (fst (pr_iteration g dn pr))))"
  by (simp add: Let_def)

lemma danglingABC_loop:
  assumes "0 < a" "a < b"
  shows "\<exists>a' b'. fst (pr_loop (danglingABC passes tolerance) [''B'', ''C''] m it
                        [(''A'', a), (''B'', b), (''C'', b)])
                  = [(''A'', a'), (''B'', b'), (''C'', b')] \<and> 0 < a' \<and> a' < b'"
  using assms
proof (induction m arbitrary: it a b)
  case 0 then show ?case by simp
next
  case (Suc m)
  let ?a = "(1 - 85 / 100) / 3 + 85 / 100 * (0 + (b + b) / 3)"
  let ?b = "(1 - 85 / 100) / 3 + 85 / 100 * (a / 2 + (b + b) / 3)"
  have p: "fst (pr_iteration (danglingABC passes tolerance) [''B'', ''C'']
          [(''A'', a), (''B'', b), (''C'', b)]) = [(''A'', ?a), (''B'', ?b), (''C'', ?b)]"
    by (rule danglingABC_pass)
  have pos: "0 < ?a" "?a < ?b" using Suc.prems by simp_all
  show ?case
  proof (cases "snd (pr_iteration (danglingABC passes tolerance) [''B'', ''C'']
          [(''A'', a), (''B'', b), (''C'', b)])
        < pageRankConvergence (config (danglingABC passes tolerance))")
    case True
    then show ?thesis unfolding pr_loop_Suc p using pos by (simp only: if_True) blast
  next
    case False
    then show ?thesis unfolding pr_loop_Suc p using Suc.IH[OF pos] by (simp only: if_False)
  qed
qed

lemma danglingABC_first:
  "\<exists>a' b'. fst (pr_loop (danglingABC passes tolerance) [''B'', ''C''] (Suc m) it
                        [(''A'', 1 / 3), (''B'', 1 / 3), (''C'', 1 / 3)])
                  = [(''A'', a'), (''B'', b'), (''C'', b')] \<and> 0 < a' \<and> a' < b'"
proof -
  let ?a = "(1 - 85 / 100) / 3 + 85 / 100 * (0 + (1 / 3 + 1 / 3) / 3) :: rat"
  let ?b = "(1 - 85 / 100) / 3 + 85 / 100 * ((1 / 3) / 2 + (1 / 3 + 1 / 3) / 3) :: rat"
  have p: "fst (pr_iteration (danglingABC passes tolerance) [''B'', ''C'']
          [(''A'', 1 / 3), (''B'', 1 / 3), (''C'', 1 / 3)]) = [(''A'', ?a), (''B'', ?b), (''C'', ?b)]"
    by (rule danglingABC_pass)
  have pos: "0 < ?a" "?a < ?b" by simp_all
  show ?thesis
  proof (cases "snd (pr_iteration (danglingABC passes tolerance) [''B'', ''C'']
          [(''A'', 1 / 3), (''B'', 1 / 3), (''C'', 1 / 3)])
        < pageRankConvergence (config (danglingABC passes tolerance))")
    case True
    then show ?thesis unfolding pr_loop_Suc p using pos by (simp only: if_True) blast
  next
    case False
    then show ?thesis unfolding pr_loop_Suc p
      using danglingABC_loop[OF pos, of passes tolerance m] by (simp only: if_False)
  qed
qed

lemma danglingABC_ranks:
  assumes "0 < passes"
  shows "\<exists>a b. snd (computePageRank (danglingABC passes tolerance))
             = [(''A'', a), (''B'', b), (''C'', b)] \<and> 0 < a \<and> a < b"
proof -
  let ?g = "danglingABC passes tolerance"
  note st = danglingABC_state[of passes tolerance]
  from assms have "0 < nat \<lceil>passes\<rceil>" by simp
  then obtain m where m: "nat \<lceil>passes\<rceil> = Suc m" by (cases "nat \<lceil>passes\<rceil>") simp_all
  have l: "length (nodes ?g) = 3" using st(1) by (metis length_map length_Cons list.size(3) numeral_3_eq_3)
  then have n: "nodes ?g \<noteq> []" by auto
  have eq: "snd (computePageRank ?g)
      = fst (pr_loop ?g [''B'', ''C''] (Suc m) 0 [(''A'', 1 / 3), (''B'', 1 / 3), (''C'', 1 / 3)])"
    using n by (simp add: computePageRank_def Let_def st l m)
  show ?thesis unfolding eq by (rule danglingABC_first)
qed

text \<open>
  C7: on the nodes \<open>A\<close>, \<open>B\<close>, \<open>C\<close> with the edges \<open>A \<rightarrow> B\<close> and \<open>A \<rightarrow> C\<close> and damping
  0.85, whenever the bound on the passes allows one pass, \<open>computePageRank\<close> gives
  \<open>B\<close> and \<open>C\<close> the same rank and \<open>A\<close> a strictly smaller one, whatever the
  tolerance. In a pass every node receives \<open>(1 - d) / 3\<close> and \<open>d\<close> times a third of the
  ranks of the dangling nodes \<open>B\<close> and \<open>C\<close>; \<open>B\<close> and \<open>C\<close> receive \<open>d\<close> times half the
  rank of \<open>A\<close> besides.
\<close>

theorem dangling_ranks:
  "(0 < passes \<longrightarrow>
      map fst (snd (computePageRank (danglingABC passes tolerance))) = [''A'', ''B'', ''C'']
      \<and> rankOf (snd (computePageRank (danglingABC passes tolerance))) ''B''
          = rankOf (snd (computePageRank (danglingABC passes tolerance))) ''C''
      \<and> rankOf (snd (computePageRank (danglingABC passes tolerance))) ''A''
          < rankOf (snd (computePageRank (danglingABC passes tolerance))) ''B'')
   \<and> fst (pr_iteration (danglingABC passes tolerance) [''B'', ''C'']
            [(''A'', a), (''B'', b), (''C'', c)])
       = [(''A'', (1 - 85 / 100) / 3 + 85 / 100 * (0 + (b + c) / 3)),
          (''B'', (1 - 85 / 100) / 3 + 85 / 100 * (a / 2 + (b + c) / 3)),
          (''C'', (1 - 85 / 100) / 3 + 85 / 100 * (a / 2 + (b + c) / 3))]"
proof (intro conjI impI)
  assume p: "0 < passes"
  from danglingABC_ranks[OF p, of tolerance] obtain x y where
    r: "snd (computePageRank (danglingABC passes tolerance)) = [(''A'', x), (''B'', y), (''C'', y)]"
    and xy: "0 < x" "x < y" by blast
  show "map fst (snd (computePageRank (danglingABC passes tolerance))) = [''A'', ''B'', ''C'']"
    by (simp add: r)
  show "rankOf (snd (computePageRank (danglingABC passes tolerance))) ''B''
          = rankOf (snd (computePageRank (danglingABC passes tolerance))) ''C''"
    by (simp add: r rankOf_def num_or_def)
  show "rankOf (snd (computePageRank (danglingABC passes tolerance))) ''A''
          < rankOf (snd (computePageRank (danglingABC passes tolerance))) ''B''"
    using xy by (simp add: r rankOf_def num_or_def)
next
  show "fst (pr_iteration (danglingABC passes tolerance) [''B'', ''C'']
            [(''A'', a), (''B'', b), (''C'', c)])
       = [(''A'', (1 - 85 / 100) / 3 + 85 / 100 * (0 + (b + c) / 3)),
          (''B'', (1 - 85 / 100) / 3 + 85 / 100 * (a / 2 + (b + c) / 3)),
          (''C'', (1 - 85 / 100) / 3 + 85 / 100 * (a / 2 + (b + c) / 3))]"
    by (rule danglingABC_pass)
qed

theorem dangling_ranks_witness:
  "(0 :: rat) < 50
   \<and> danglingABC 50 (1 / 1000000)
       = run [AddNode (plainEntry ''A''), AddNode (plainEntry ''B''), AddNode (plainEntry ''C''),
              AddEdge ''A'' ''B'' Reference 1, AddEdge ''A'' ''C'' Reference 1 :: unit Call]
           (new DEFAULT_CONFIG)
   \<and> rankOf (snd (computePageRank (danglingABC 50 (1 / 1000000)))) ''B''
       = rankOf (snd (computePageRank (danglingABC 50 (1 / 1000000)))) ''C''
   \<and> rankOf (snd (computePageRank (danglingABC 50 (1 / 1000000)))) ''A''
       < rankOf (snd (computePageRank (danglingABC 50 (1 / 1000000)))) ''B''"
proof -
  have d: "danglingABC 50 (1 / 1000000)
       = run [AddNode (plainEntry ''A''), AddNode (plainEntry ''B''), AddNode (plainEntry ''C''),
              AddEdge ''A'' ''B'' Reference 1, AddEdge ''A'' ''C'' Reference 1 :: unit Call]
           (new DEFAULT_CONFIG)"
    by (simp add: danglingABC_def DEFAULT_CONFIG_def)
  have p: "(0 :: rat) < 50" by simp
  from dangling_ranks[of 50 "1 / 1000000"] p d show ?thesis by blast
qed

end
